theory Spec2Isabelle
  imports Complex_Main
begin

section \<open>JSON tree visualizer: tree construction, layered layout and path search\<close>

text \<open>
  The development follows \<^verbatim>\<open>src/components/JSONTreeVisualizer.tsx\<close>. The component's
  React state is an explicit record, each handler is a function on that record, and the
  closures \<^verbatim>\<open>traverse\<close> and \<^verbatim>\<open>findLevel\<close>, which mutate variables of their enclosing
  function, pass those variables as a state.
\<close>

subsection \<open>Values and strings\<close>

text \<open>
  A parsed JSON value. The number type is a parameter: the component stores a number on
  its node and never computes with it. An object is the list that \<^verbatim>\<open>Object.entries\<close>
  returns; JavaScript objects hold every key once, which is \<open>json_wf\<close>.
  Strings are lists of 8-bit characters, read as the code units 0 to 255.
\<close>

datatype 'n json =
    JNull
  | JBool bool
  | JNum 'n
  | JStr string
  | JArr "'n json list"
  | JObj "(string \<times> 'n json) list"

fun json_wf :: "'n json \<Rightarrow> bool" where
  "json_wf (JArr xs) = list_all json_wf xs"
| "json_wf (JObj kvs) = (distinct (map fst kvs) \<and> list_all (\<lambda>(k, v). json_wf v) kvs)"
| "json_wf _ = True"

text \<open>\<^verbatim>\<open>Array.isArray(value)\<close>, and \<^verbatim>\<open>typeof value === "object" && value !== null\<close>.\<close>

fun isArray :: "'n json \<Rightarrow> bool" where
  "isArray (JArr xs) = True"
| "isArray _ = False"

fun isObjectNotNull :: "'n json \<Rightarrow> bool" where
  "isObjectNotNull (JArr xs) = True"
| "isObjectNotNull (JObj kvs) = True"
| "isObjectNotNull _ = False"

text \<open>\<^verbatim>\<open>Object.entries(value)\<close> of an object, and the elements of an array.\<close>

fun entries :: "'n json \<Rightarrow> (string \<times> 'n json) list" where
  "entries (JObj kvs) = kvs"
| "entries _ = []"

fun elements :: "'n json \<Rightarrow> 'n json list" where
  "elements (JArr xs) = xs"
| "elements _ = []"

text \<open>The decimal rendering of an array index in a template literal.\<close>

definition digit_char :: "nat \<Rightarrow> char" where
  "digit_char d = ''0123456789'' ! d"

fun show_nat :: "nat \<Rightarrow> string" where
  "show_nat n = (if n < 10 then [digit_char n] else show_nat (n div 10) @ [digit_char (n mod 10)])"

declare show_nat.simps [simp del]

text \<open>
  \<^verbatim>\<open>String.prototype.trim\<close>: white space and line terminators among the code units
  below 256 are tab, line feed, vertical tab, form feed, carriage return, space and the
  no-break space.
\<close>

definition is_space :: "char \<Rightarrow> bool" where
  "is_space c = (of_char c \<in> {9, 10, 11, 12, 13, 32, 160 :: nat})"

definition trim :: "string \<Rightarrow> string" where
  "trim s = rev (dropWhile is_space (rev (dropWhile is_space s)))"

definition startsWith :: "string \<Rightarrow> string \<Rightarrow> bool" where
  "startsWith s p = (take (length p) s = p)"

subsection \<open>Nodes and edges\<close>

text \<open>
  The fields keep their names where a name is free: \<^verbatim>\<open>id\<close> is \<open>nid\<close> on a node and
  \<open>eid\<close> on an edge, \<^verbatim>\<open>type\<close> is \<open>ntype\<close> on a node and \<open>dtype\<close> in its data,
  \<^verbatim>\<open>value\<close> is \<open>val\<close> (absent on objects and arrays), and the coordinates \<^verbatim>\<open>x\<close> and
  \<^verbatim>\<open>y\<close> are \<open>px\<close> and \<open>py\<close>.
\<close>

datatype NodeType = TObject | TArray | TPrimitive

datatype Position = Top | Bottom

record 'n NodeData =
  label :: string
  val :: "'n json option"
  dtype :: NodeType
  path :: string
  isDark :: bool
  isHighlighted :: bool

record XY =
  px :: rat
  py :: rat

record 'n RFNode =
  nid :: string
  ntype :: string
  data :: "'n NodeData"
  position :: XY
  sourcePosition :: Position
  targetPosition :: Position

record RFEdge =
  eid :: string
  source :: string
  target :: string

subsection \<open>createTree\<close>

text \<open>
  The variables \<^verbatim>\<open>nodeList\<close>, \<^verbatim>\<open>edgeList\<close> and \<^verbatim>\<open>nodeId\<close> of one call of
  \<^verbatim>\<open>createTree\<close>, which \<^verbatim>\<open>traverse\<close> mutates.
\<close>

record 'n build =
  nodeId :: nat
  nodeList :: "'n RFNode list"
  edgeList :: "RFEdge list"

lemma entries_smaller: "(k, v) \<in> set (entries value) \<Longrightarrow> size v < size value"
proof (cases "value")
  case (JObj kvs)
  assume "(k, v) \<in> set (entries value)"
  with JObj have "(k, v) \<in> set kvs" by simp
  then have "size v < Suc (size_list (size_prod (\<lambda>_. 0) size) kvs)"
    by (induction kvs) auto
  with JObj show ?thesis by simp
qed simp_all

lemma elements_smaller: "(item, idx) \<in> set (zip (elements value) ns) \<Longrightarrow> size item < size value"
proof (cases "value")
  case (JArr xs)
  assume "(item, idx) \<in> set (zip (elements value) ns)"
  with JArr have "item \<in> set xs" by (auto dest: set_zip_leftD)
  then have "size item < Suc (size_list size xs)"
    by (induction xs) auto
  with JArr show ?thesis by simp
qed simp_all

function traverse ::
  "bool \<Rightarrow> 'n json \<Rightarrow> string option \<Rightarrow> string \<Rightarrow> string \<Rightarrow> 'n build \<Rightarrow> 'n build" where
  "traverse dark value parent lbl currentPath st =
    (let id = ''node-'' @ show_nat (nodeId st);
         st1 = st\<lparr>nodeId := nodeId st + 1\<rparr>;
         nodeType = (if isArray value then TArray
                     else if isObjectNotNull value then TObject
                     else TPrimitive);
         node = \<lparr>nid = id, ntype = ''custom'',
                 data = \<lparr>label = lbl,
                         val = (if nodeType = TPrimitive then Some value else None),
                         dtype = nodeType, path = currentPath,
                         isDark = dark, isHighlighted = False\<rparr>,
                 position = \<lparr>px = 0, py = 0\<rparr>,
                 sourcePosition = Bottom, targetPosition = Top\<rparr>;
         st2 = st1\<lparr>nodeList := nodeList st1 @ [node]\<rparr>;
         st3 = (case parent of
                  None \<Rightarrow> st2
                | Some p \<Rightarrow>
                    if p \<noteq> [] then
                      st2\<lparr>edgeList := edgeList st2 @
                        [\<lparr>eid = ''edge-'' @ p @ ''-'' @ id, source = p, target = id\<rparr>]\<rparr>
                    else st2)
     in if nodeType = TObject then
          fold (\<lambda>(k, v). traverse dark v (Some id) k (currentPath @ ''.'' @ k))
            (entries value) st3
        else if nodeType = TArray then
          fold (\<lambda>(item, idx). traverse dark item (Some id) (''['' @ show_nat idx @ '']'')
                  (currentPath @ ''['' @ show_nat idx @ '']''))
            (zip (elements value) [0..<length (elements value)]) st3
        else st3)"
  by pat_completeness auto
termination
  by (relation "measure (\<lambda>(dark, value, parent, lbl, currentPath, st). size value)")
     (auto dest: entries_smaller elements_smaller)

declare traverse.simps [simp del]

text \<open>
  \<^verbatim>\<open>createTree(obj, parentId = null, key = "root", path = "$")\<close>; \<^verbatim>\<open>isDark\<close> is the
  component state the callback closes over.
\<close>

definition createTree ::
  "bool \<Rightarrow> 'n json \<Rightarrow> string option \<Rightarrow> string \<Rightarrow> string \<Rightarrow> 'n RFNode list \<times> RFEdge list" where
  "createTree dark obj parentId key pth =
    (let st = traverse dark obj parentId key pth \<lparr>nodeId = 0, nodeList = [], edgeList = []\<rparr>
     in (nodeList st, edgeList st))"

text \<open>The call \<^verbatim>\<open>createTree(parsed)\<close> of the visualize action, with the defaults.\<close>

definition createTree_default :: "bool \<Rightarrow> 'n json \<Rightarrow> 'n RFNode list \<times> RFEdge list" where
  "createTree_default dark obj = createTree dark obj None ''root'' ''$''"

text \<open>
  The call stack of the engine admits only so many nested calls, and \<^verbatim>\<open>traverse\<close> nests
  one call for every level of the value. \<open>traverse_within\<close> is \<^verbatim>\<open>traverse\<close> with that
  bound as its first argument; \<open>None\<close> says that the bound was reached, where the engine
  throws a \<^verbatim>\<open>RangeError\<close>. \<open>createTree_within\<close> is \<^verbatim>\<open>createTree\<close> on it.
\<close>

fun traverse_within ::
  "nat \<Rightarrow> bool \<Rightarrow> 'n json \<Rightarrow> string option \<Rightarrow> string \<Rightarrow> string \<Rightarrow> 'n build \<Rightarrow>
     'n build option" where
  "traverse_within 0 dark value parent lbl currentPath st = None"
| "traverse_within (Suc fuel) dark value parent lbl currentPath st =
    (let id = ''node-'' @ show_nat (nodeId st);
         st1 = st\<lparr>nodeId := nodeId st + 1\<rparr>;
         nodeType = (if isArray value then TArray
                     else if isObjectNotNull value then TObject
                     else TPrimitive);
         node = \<lparr>nid = id, ntype = ''custom'',
                 data = \<lparr>label = lbl,
                         val = (if nodeType = TPrimitive then Some value else None),
                         dtype = nodeType, path = currentPath,
                         isDark = dark, isHighlighted = False\<rparr>,
                 position = \<lparr>px = 0, py = 0\<rparr>,
                 sourcePosition = Bottom, targetPosition = Top\<rparr>;
         st2 = st1\<lparr>nodeList := nodeList st1 @ [node]\<rparr>;
         st3 = (case parent of
                  None \<Rightarrow> st2
                | Some p \<Rightarrow>
                    if p \<noteq> [] then
                      st2\<lparr>edgeList := edgeList st2 @
                        [\<lparr>eid = ''edge-'' @ p @ ''-'' @ id, source = p, target = id\<rparr>]\<rparr>
                    else st2)
     in if nodeType = TObject then
          fold (\<lambda>(k, v) r.
                  case r of
                    None \<Rightarrow> None
                  | Some s \<Rightarrow>
                      traverse_within fuel dark v (Some id) k (currentPath @ ''.'' @ k) s)
            (entries value) (Some st3)
        else if nodeType = TArray then
          fold (\<lambda>(item, idx) r.
                  case r of
                    None \<Rightarrow> None
                  | Some s \<Rightarrow>
                      traverse_within fuel dark item (Some id) (''['' @ show_nat idx @ '']'')
                        (currentPath @ ''['' @ show_nat idx @ '']'') s)
            (zip (elements value) [0..<length (elements value)]) (Some st3)
        else Some st3)"

definition createTree_within ::
  "nat \<Rightarrow> bool \<Rightarrow> 'n json \<Rightarrow> string option \<Rightarrow> string \<Rightarrow> string \<Rightarrow>
     ('n RFNode list \<times> RFEdge list) option" where
  "createTree_within fuel dark obj parentId key pth =
    (case traverse_within fuel dark obj parentId key pth
            \<lparr>nodeId = 0, nodeList = [], edgeList = []\<rparr> of
       None \<Rightarrow> None
     | Some st \<Rightarrow> Some (nodeList st, edgeList st))"

subsection \<open>layoutNodes\<close>

text \<open>
  \<^verbatim>\<open>levels\<close> is a \<^verbatim>\<open>Record<number, string[]>\<close>: an association list with every key
  once. \<^verbatim>\<open>Object.entries\<close> lists integer keys in ascending order, which is
  \<open>Object_entries\<close>. \<^verbatim>\<open>visited\<close> is the \<^verbatim>\<open>Set<string>\<close>.
\<close>

record levels_state =
  levels :: "(nat \<times> string list) list"
  visited :: "string set"

definition Object_entries :: "(nat \<times> string list) list \<Rightarrow> (nat \<times> string list) list" where
  "Object_entries lv = sort_key fst lv"

text \<open>
  \<^verbatim>\<open>findLevel\<close> calls itself from inside \<^verbatim>\<open>edges.forEach\<close>. The first argument
  bounds the depth of the recursion; \<open>None\<close> says that the bound was reached.
\<close>

fun findLevel ::
  "nat \<Rightarrow> RFEdge list \<Rightarrow> string \<Rightarrow> nat \<Rightarrow> levels_state \<Rightarrow> levels_state option" where
  "findLevel 0 edges nodeId' level st = None"
| "findLevel (Suc fuel) edges nodeId' level st =
    (if nodeId' \<in> visited st then Some st
     else
       let st1 = st\<lparr>visited := insert nodeId' (visited st)\<rparr>;
           st2 = (if map_of (levels st1) level = None
                  then st1\<lparr>levels := levels st1 @ [(level, [])]\<rparr> else st1);
           st3 = st2\<lparr>levels :=
                   map (\<lambda>(l, ids). if l = level then (l, ids @ [nodeId']) else (l, ids))
                     (levels st2)\<rparr>
       in fold (\<lambda>edge r.
                  case r of
                    None \<Rightarrow> None
                  | Some s \<Rightarrow>
                      if source edge = nodeId'
                      then findLevel fuel edges (target edge) (level + 1) s
                      else Some s)
            edges (Some st3))"

text \<open>
  \<^verbatim>\<open>const node = nodes.find((n) => n.id === nodeId); if (node) node.position = ...\<close>:
  the first node with that id is changed in place.
\<close>

fun setPosition :: "string \<Rightarrow> XY \<Rightarrow> 'n RFNode list \<Rightarrow> 'n RFNode list" where
  "setPosition nodeId' pos [] = []"
| "setPosition nodeId' pos (n # ns) =
     (if nid n = nodeId' then n\<lparr>position := pos\<rparr> # ns else n # setPosition nodeId' pos ns)"

definition layoutNodes ::
  "nat \<Rightarrow> 'n RFNode list \<Rightarrow> RFEdge list \<Rightarrow> 'n RFNode list option" where
  "layoutNodes fuel nodes edges =
    (let rootNode = find (\<lambda>n. \<not> list_ex (\<lambda>e. target e = nid n) edges) nodes;
         st0 = \<lparr>levels = [], visited = {}\<rparr>;
         found = (case rootNode of
                    None \<Rightarrow> Some st0
                  | Some r \<Rightarrow> findLevel fuel edges (nid r) 0 st0)
     in case found of
          None \<Rightarrow> None
        | Some st \<Rightarrow>
            Some (fold (\<lambda>(levelNum, nodeIds).
                          fold (\<lambda>(nodeId', index).
                                  setPosition nodeId'
                                    \<lparr>px = (of_nat index - of_nat (length nodeIds) / 2) * 200,
                                     py = of_nat levelNum * 150\<rparr>)
                            (zip nodeIds [0..<length nodeIds]))
                    (Object_entries (levels st)) nodes))"

subsection \<open>The component state and its handlers\<close>

text \<open>
  The \<^verbatim>\<open>useState\<close> cells of the component. \<open>themeDark\<close> is the cell \<^verbatim>\<open>isDark\<close>.
  The viewport instance is the rendering library's: the call \<^verbatim>\<open>setCenter\<close> of a
  successful search goes to it and changes none of these cells.
\<close>

record 'n state =
  jsonInput :: string
  searchPath :: string
  nodes :: "'n RFNode list"
  edges :: "RFEdge list"
  error :: string
  searchResult :: string
  themeDark :: bool

text \<open>
  \<^verbatim>\<open>JSON.parse\<close> belongs to the runtime: it is a parameter, returning the parsed value
  or the message of the error it throws. The first argument is the depth of nested calls
  that the call stack admits. The \<^verbatim>\<open>try\<close> block holds the parsing, \<^verbatim>\<open>createTree\<close> and
  \<^verbatim>\<open>layoutNodes\<close>: the \<^verbatim>\<open>catch\<close> receives the error of the parser and, where the
  stack gives out in one of the two recursions, the \<^verbatim>\<open>RangeError\<close> of the engine, whose
  message in V8 is \<open>RangeError_message\<close>. That error arrives after the two cells
  \<^verbatim>\<open>error\<close> and \<^verbatim>\<open>searchResult\<close> were emptied.
\<close>

definition RangeError_message :: string where
  "RangeError_message = ''Maximum call stack size exceeded''"

definition handleVisualize ::
  "nat \<Rightarrow> (string \<Rightarrow> string + 'n json) \<Rightarrow> 'n state \<Rightarrow> 'n state" where
  "handleVisualize fuel JSON_parse st =
    (case JSON_parse (jsonInput st) of
       Inr parsed \<Rightarrow>
         (let st1 = st\<lparr>error := [], searchResult := []\<rparr>;
              caught = st1\<lparr>error := ''Invalid JSON: '' @ RangeError_message,
                           nodes := [], edges := []\<rparr>
          in case createTree_within fuel (themeDark st) parsed None ''root'' ''$'' of
               None \<Rightarrow> caught
             | Some (newNodes, newEdges) \<Rightarrow>
                 (case layoutNodes fuel newNodes newEdges of
                    None \<Rightarrow> caught
                  | Some layoutedNodes \<Rightarrow> st1\<lparr>nodes := layoutedNodes, edges := newEdges\<rparr>))
     | Inl message \<Rightarrow>
         st\<lparr>error := ''Invalid JSON: '' @ message, nodes := [], edges := []\<rparr>)"

text \<open>The two constants of \<^verbatim>\<open>handleSearch\<close>: the normalised path and the matched node.\<close>

definition normalizedPath :: "string \<Rightarrow> string" where
  "normalizedPath s = (if startsWith (trim s) ''$'' then trim s else ''$.'' @ trim s)"

definition matchedNode :: "'n RFNode list \<Rightarrow> string \<Rightarrow> 'n RFNode option" where
  "matchedNode ns s = find (\<lambda>n. path (data n) = normalizedPath s) ns"

definition handleSearch :: "'n state \<Rightarrow> 'n state" where
  "handleSearch st =
    (if trim (searchPath st) = [] then
       st\<lparr>searchResult := [],
          nodes := map (\<lambda>n. n\<lparr>data := (data n)\<lparr>isHighlighted := False\<rparr>\<rparr>) (nodes st)\<rparr>
     else
       case matchedNode (nodes st) (searchPath st) of
         Some m \<Rightarrow>
           st\<lparr>nodes := map (\<lambda>n. n\<lparr>data := (data n)\<lparr>isHighlighted := (nid n = nid m)\<rparr>\<rparr>) (nodes st),
              searchResult := ''Match found!''\<rparr>
       | None \<Rightarrow>
           st\<lparr>nodes := map (\<lambda>n. n\<lparr>data := (data n)\<lparr>isHighlighted := False\<rparr>\<rparr>) (nodes st),
              searchResult := ''No match found''\<rparr>)"

section \<open>Specification-side notions\<close>

text \<open>
  The number of object entries and array elements reachable in a value, counted
  recursively.
\<close>

fun reachable_count :: "'n json \<Rightarrow> nat" where
  "reachable_count (JArr xs) = sum_list (map (\<lambda>x. Suc (reachable_count x)) xs)"
| "reachable_count (JObj kvs) = sum_list (map (\<lambda>(k, v). Suc (reachable_count v)) kvs)"
| "reachable_count _ = 0"

section \<open>What one traversal appends\<close>

text \<open>
  \<open>traverse\<close> numbers the values in pre-order. The nodes and edges it appends are
  described without the state: \<open>tnodes\<close> lists the nodes of a value whose first number
  is given, and \<open>ntree_of\<close> is the tree of the numbers alone.
\<close>


definition node_id :: "nat \<Rightarrow> string" where
  "node_id n = ''node-'' @ show_nat n"

fun kids :: "'n json \<Rightarrow> string \<Rightarrow> ('n json \<times> string \<times> string) list" where
  "kids (JObj kvs) p = map (\<lambda>(k, v). (v, k, p @ ''.'' @ k)) kvs"
| "kids (JArr xs) p =
     map (\<lambda>(item, idx). (item, ''['' @ show_nat idx @ '']'', p @ ''['' @ show_nat idx @ '']''))
       (zip xs [0..<length xs])"
| "kids _ p = []"

fun jsize :: "'n json \<Rightarrow> nat" where
  "jsize (JArr xs) = Suc (sum_list (map jsize xs))"
| "jsize (JObj kvs) = Suc (sum_list (map (\<lambda>(k, v). jsize v) kvs))"
| "jsize _ = 1"

primrec numbered :: "('a \<Rightarrow> nat) \<Rightarrow> 'a list \<Rightarrow> nat \<Rightarrow> ('a \<times> nat) list" where
  "numbered sz [] n = []"
| "numbered sz (c # cs) n = (c, n) # numbered sz cs (n + sz c)"

lemma numbered_fst: "map fst (numbered sz cs n) = cs"
  by (induction cs arbitrary: n) auto

lemma numbered_mem: "(c, m) \<in> set (numbered sz cs n) \<Longrightarrow> c \<in> set cs"
  by (induction cs arbitrary: n) auto

lemma map_fst_zip_fun: "length xs = length ns \<Longrightarrow> map (\<lambda>x. f (fst x)) (zip xs ns) = map f xs"
  by (induction xs ns rule: list_induct2) auto

lemma numbered_map: "numbered sz (map f ks) n = map (\<lambda>km. (f (fst km), snd km)) (numbered (\<lambda>k. sz (f k)) ks n)"
  by (induction ks arbitrary: n) auto

lemma kids_smaller: "(c, cl, cp) \<in> set (kids v p) \<Longrightarrow> size c < size v"
proof (cases v)
  case (JArr xs)
  assume "(c, cl, cp) \<in> set (kids v p)"
  with JArr have "c \<in> set xs" by (auto dest: set_zip_leftD)
  then have "size c < Suc (size_list size xs)" by (induction xs) auto
  with JArr show ?thesis by simp
next
  case (JObj kvs)
  assume "(c, cl, cp) \<in> set (kids v p)"
  with JObj obtain k where "(k, c) \<in> set kvs" by auto
  then have "size c < Suc (size_list (size_prod (\<lambda>_. 0) size) kvs)" by (induction kvs) auto
  with JObj show ?thesis by simp
qed simp_all

definition mk_node :: "bool \<Rightarrow> 'n json \<Rightarrow> string \<Rightarrow> string \<Rightarrow> nat \<Rightarrow> 'n RFNode" where
  "mk_node dark v lbl p n =
     \<lparr>nid = node_id n, ntype = ''custom'',
      data = \<lparr>label = lbl,
              val = (if isObjectNotNull v then None else Some v),
              dtype = (if isArray v then TArray else if isObjectNotNull v then TObject else TPrimitive),
              path = p, isDark = dark, isHighlighted = False\<rparr>,
      position = \<lparr>px = 0, py = 0\<rparr>, sourcePosition = Bottom, targetPosition = Top\<rparr>"

function tnodes :: "bool \<Rightarrow> 'n json \<Rightarrow> string \<Rightarrow> string \<Rightarrow> nat \<Rightarrow> 'n RFNode list" where
  "tnodes dark v lbl p n =
     mk_node dark v lbl p n #
     concat (map (\<lambda>((c, cl, cp), m). tnodes dark c cl cp m)
               (numbered (\<lambda>k. jsize (fst k)) (kids v p) (Suc n)))"
  by pat_completeness auto
termination
  by (relation "measure (\<lambda>(dark, v, lbl, p, n). size v)")
     (auto dest!: numbered_mem kids_smaller)

declare tnodes.simps [simp del]

datatype ntree = NT nat "ntree list"

fun root :: "ntree \<Rightarrow> nat" where "root (NT n cs) = n"

fun children :: "'n json \<Rightarrow> 'n json list" where
  "children (JObj kvs) = map snd kvs"
| "children (JArr xs) = xs"
| "children _ = []"

lemma children_kids: "children v = map fst (kids v p)"
  by (cases v) (auto simp: comp_def split_def map_fst_zip_fun)

lemma children_smaller: "c \<in> set (children v) \<Longrightarrow> size c < size v"
  unfolding children_kids [of v "[]"] by (auto dest: kids_smaller)

function ntree_of :: "'n json \<Rightarrow> nat \<Rightarrow> ntree" where
  "ntree_of v n = NT n (map (\<lambda>(c, m). ntree_of c m) (numbered jsize (children v) (Suc n)))"
  by pat_completeness auto
termination
  by (relation "measure (\<lambda>(v, n). size v)")
     (auto dest!: numbered_mem children_smaller)

declare ntree_of.simps [simp del]

fun edges_of :: "ntree \<Rightarrow> (nat \<times> nat) list" where
  "edges_of (NT n cs) = concat (map (\<lambda>c. (n, root c) # edges_of c) cs)"

definition mk_edge :: "string \<Rightarrow> string \<Rightarrow> RFEdge" where
  "mk_edge p c = \<lparr>eid = ''edge-'' @ p @ ''-'' @ c, source = p, target = c\<rparr>"

definition parent_edge :: "string option \<Rightarrow> nat \<Rightarrow> RFEdge list" where
  "parent_edge parent n =
     (case parent of None \<Rightarrow> [] | Some p \<Rightarrow> if p \<noteq> [] then [mk_edge p (node_id n)] else [])"

definition tedges :: "ntree \<Rightarrow> RFEdge list" where
  "tedges t = map (\<lambda>(p, c). mk_edge (node_id p) (node_id c)) (edges_of t)"

lemma kids_sizes: "map (\<lambda>k. jsize (fst k)) (kids v p) = map (\<lambda>k. jsize (fst k)) (kids v q)"
  by (cases v) (auto simp: comp_def split_def)

lemma jsize_kids: "jsize v = Suc (sum_list (map (\<lambda>k. jsize (fst k)) (kids v p)))"
proof (cases v)
  case (JArr xs)
  then show ?thesis by (simp add: comp_def split_def map_fst_zip_fun)
next
  case (JObj kvs)
  then show ?thesis by (simp add: comp_def split_def)
qed simp_all

lemma fold_traverse_kids:
  assumes "\<And>c cl cp st. (c, cl, cp) \<in> set ks \<Longrightarrow>
     traverse dark c (Some (node_id par)) cl cp st =
       st\<lparr>nodeId := nodeId st + jsize c,
          nodeList := nodeList st @ tnodes dark c cl cp (nodeId st),
          edgeList := edgeList st @ mk_edge (node_id par) (node_id (nodeId st)) # tedges (ntree_of c (nodeId st))\<rparr>"
  shows "fold (\<lambda>(c, cl, cp). traverse dark c (Some (node_id par)) cl cp) ks st =
       st\<lparr>nodeId := nodeId st + sum_list (map (\<lambda>k. jsize (fst k)) ks),
          nodeList := nodeList st @
            concat (map (\<lambda>((c, cl, cp), m). tnodes dark c cl cp m) (numbered (\<lambda>k. jsize (fst k)) ks (nodeId st))),
          edgeList := edgeList st @
            concat (map (\<lambda>km. mk_edge (node_id par) (node_id (snd km)) # tedges (ntree_of (fst (fst km)) (snd km)))
                      (numbered (\<lambda>k. jsize (fst k)) ks (nodeId st)))\<rparr>"
  using assms
proof (induction ks arbitrary: st)
  case Nil
  then show ?case by simp
next
  case (Cons k ks)
  obtain c cl cp where k: "k = (c, cl, cp)" by (cases k) auto
  have step: "traverse dark c (Some (node_id par)) cl cp st =
       st\<lparr>nodeId := nodeId st + jsize c,
          nodeList := nodeList st @ tnodes dark c cl cp (nodeId st),
          edgeList := edgeList st @ mk_edge (node_id par) (node_id (nodeId st)) # tedges (ntree_of c (nodeId st))\<rparr>"
    using Cons.prems [of c cl cp st] k by simp
  have rest: "\<And>st. fold (\<lambda>(c, cl, cp). traverse dark c (Some (node_id par)) cl cp) ks st =
       st\<lparr>nodeId := nodeId st + sum_list (map (\<lambda>k. jsize (fst k)) ks),
          nodeList := nodeList st @
            concat (map (\<lambda>((c, cl, cp), m). tnodes dark c cl cp m) (numbered (\<lambda>k. jsize (fst k)) ks (nodeId st))),
          edgeList := edgeList st @
            concat (map (\<lambda>km. mk_edge (node_id par) (node_id (snd km)) # tedges (ntree_of (fst (fst km)) (snd km)))
                      (numbered (\<lambda>k. jsize (fst k)) ks (nodeId st)))\<rparr>"
    by (rule Cons.IH) (rule Cons.prems, simp)
  show ?case
    by (simp add: k step rest add.assoc)
qed


lemma tedges_NT:
  "tedges (NT n cs) = concat (map (\<lambda>c. mk_edge (node_id n) (node_id (root c)) # tedges c) cs)"
  by (simp add: tedges_def map_concat comp_def)

lemma root_ntree_of [simp]: "root (ntree_of v n) = n"
  by (subst ntree_of.simps) simp

lemma tedges_ntree_of:
  "tedges (ntree_of v n) =
     concat (map (\<lambda>km. mk_edge (node_id n) (node_id (snd km)) # tedges (ntree_of (fst (fst km)) (snd km)))
               (numbered (\<lambda>k. jsize (fst k)) (kids v p) (Suc n)))"
  by (subst ntree_of.simps)
     (simp add: tedges_NT children_kids [of v p] numbered_map comp_def split_def)

lemma node_id_nonempty [simp]: "node_id n \<noteq> []"
  by (simp add: node_id_def)

lemma traverse_unfold:
  "traverse dark v parent lbl p st =
     fold (\<lambda>(c, cl, cp). traverse dark c (Some (node_id (nodeId st))) cl cp) (kids v p)
       (st\<lparr>nodeId := Suc (nodeId st),
           nodeList := nodeList st @ [mk_node dark v lbl p (nodeId st)],
           edgeList := edgeList st @ parent_edge parent (nodeId st)\<rparr>)"
proof (cases v)
  case (JArr xs)
  show ?thesis
    unfolding JArr
    by (subst traverse.simps)
       (simp add: Let_def mk_node_def parent_edge_def mk_edge_def node_id_def fold_map comp_def
          split_def split: option.splits)
next
  case (JObj kvs)
  show ?thesis
    unfolding JObj
    by (subst traverse.simps)
       (simp add: Let_def mk_node_def parent_edge_def mk_edge_def node_id_def fold_map comp_def
          split_def split: option.splits)
qed ((subst traverse.simps),
     (simp add: Let_def mk_node_def parent_edge_def mk_edge_def node_id_def split: option.splits))+

lemma traverse_char:
  "traverse dark v parent lbl p st =
     st\<lparr>nodeId := nodeId st + jsize v,
        nodeList := nodeList st @ tnodes dark v lbl p (nodeId st),
        edgeList := edgeList st @ parent_edge parent (nodeId st) @ tedges (ntree_of v (nodeId st))\<rparr>"
proof (induction "size v" arbitrary: v parent lbl p st rule: less_induct)
  case less
  let ?n = "nodeId st"
  have IH: "\<And>c cl cp st'. (c, cl, cp) \<in> set (kids v p) \<Longrightarrow>
     traverse dark c (Some (node_id ?n)) cl cp st' =
       st'\<lparr>nodeId := nodeId st' + jsize c,
          nodeList := nodeList st' @ tnodes dark c cl cp (nodeId st'),
          edgeList := edgeList st' @ mk_edge (node_id ?n) (node_id (nodeId st')) # tedges (ntree_of c (nodeId st'))\<rparr>"
    using less [OF kids_smaller] by (simp add: parent_edge_def)
  note nt = tedges_ntree_of [of v ?n p]
  show ?case
    apply (subst traverse_unfold)
    apply (subst fold_traverse_kids [of "kids v p" dark ?n, OF IH])
     apply assumption
    apply (subst tnodes.simps [of dark v lbl p])
    apply (simp add: nt jsize_kids [of v p])
    done
qed


lemma sum_numbered:
  "(\<And>c m. (c, m) \<in> set (numbered sz cs n) \<Longrightarrow> g (c, m) = sz c) \<Longrightarrow>
     sum_list (map g (numbered sz cs n)) = sum_list (map sz cs)"
  by (induction cs arbitrary: n) auto

lemma length_tnodes: "length (tnodes dark v lbl p n) = jsize v"
proof (induction dark v lbl p n rule: tnodes.induct)
  case (1 dark v lbl p n)
  have "sum_list (map (\<lambda>km. length ((\<lambda>((c, cl, cp), m). tnodes dark c cl cp m) km))
          (numbered (\<lambda>k. jsize (fst k)) (kids v p) (Suc n)))
        = sum_list (map (\<lambda>k. jsize (fst k)) (kids v p))"
    by (rule sum_numbered) (auto simp: 1)
  then show ?case
    by (subst tnodes.simps) (simp add: length_concat comp_def jsize_kids [of v p])
qed


lemma jsize_reachable_count: "jsize v = Suc (reachable_count v)"
proof (induction v)
  case (JArr xs)
  have "sum_list (map jsize xs) = sum_list (map (\<lambda>x. Suc (reachable_count x)) xs)"
    by (rule arg_cong [where f = sum_list]) (simp add: JArr)
  then show ?case by (simp only: jsize.simps reachable_count.simps)
next
  case (JObj kvs)
  have "sum_list (map (\<lambda>(k, v). jsize v) kvs) = sum_list (map (\<lambda>(k, v). Suc (reachable_count v)) kvs)"
    by (rule arg_cong [where f = sum_list]) (auto simp: JObj snds.simps)
  then show ?case by (simp only: jsize.simps reachable_count.simps)
qed simp_all

lemma createTree_char:
  "createTree dark v parent lbl p = (tnodes dark v lbl p 0, parent_edge parent 0 @ tedges (ntree_of v 0))"
  by (simp add: createTree_def traverse_char)

section \<open>The number of nodes\<close>

text \<open>
  C4. For every value, the number of nodes that \<open>createTree\<close> produces is one plus the
  number of object entries and array elements reachable in the value, counted
  recursively.
\<close>

theorem createTree_node_count:
  "length (fst (createTree_default dark v)) = 1 + reachable_count v"
  by (simp add: createTree_default_def createTree_char length_tnodes jsize_reachable_count)

section \<open>Decimal indices and node identifiers\<close>

lemma digit_char_inj: "a < 10 \<Longrightarrow> b < 10 \<Longrightarrow> digit_char a = digit_char b \<Longrightarrow> a = b"
proof -
  assume a: "a < 10" and b: "b < 10" and e: "digit_char a = digit_char b"
  have d: "distinct ''0123456789''" by simp
  have l: "length ''0123456789'' = 10" by simp
  from e have "''0123456789'' ! a = ''0123456789'' ! b" by (simp only: digit_char_def)
  with nth_eq_iff_index_eq [OF d, of a b] a b l show ?thesis by simp
qed

lemma digit_char_mem: "a < 10 \<Longrightarrow> digit_char a \<in> set ''0123456789''"
  unfolding digit_char_def by (rule nth_mem) simp

lemma show_nat_nonempty [simp]: "show_nat n \<noteq> []"
  by (subst show_nat.simps) simp

lemma show_nat_digits: "set (show_nat n) \<subseteq> set ''0123456789''"
proof (induction n rule: show_nat.induct)
  case (1 n)
  show ?case
  proof (cases "n < 10")
    case True
    then show ?thesis using digit_char_mem [of n] by (subst show_nat.simps) simp
  next
    case False
    then have "n mod 10 < 10" by simp
    then show ?thesis using 1 False digit_char_mem [of "n mod 10"]
      by (subst show_nat.simps) simp
  qed
qed

lemma show_nat_inj: "show_nat a = show_nat b \<Longrightarrow> a = b"
proof (induction a arbitrary: b rule: show_nat.induct)
  case (1 a)
  show ?case
  proof (cases "a < 10")
    case True
    note a = True
    show ?thesis
    proof (cases "b < 10")
      case True
      with a 1(2) show ?thesis
        by (auto simp: show_nat.simps [of a] show_nat.simps [of b] dest: digit_char_inj)
    next
      case False
      with a 1(2) show ?thesis
        by (auto simp: show_nat.simps [of a] show_nat.simps [of b] Cons_eq_append_conv)
    qed
  next
    case False
    note a = False
    show ?thesis
    proof (cases "b < 10")
      case True
      with a 1(2) show ?thesis
        by (auto simp: show_nat.simps [of a] show_nat.simps [of b] append_eq_Cons_conv)
    next
      case False
      with a 1(2) have e: "show_nat (a div 10) = show_nat (b div 10)"
        and d: "digit_char (a mod 10) = digit_char (b mod 10)"
        by (auto simp: show_nat.simps [of a] show_nat.simps [of b])
      from 1(1) [OF a e] have "a div 10 = b div 10" .
      moreover have "a mod 10 = b mod 10"
        by (rule digit_char_inj [OF _ _ d]) simp_all
      ultimately show ?thesis by (metis div_mult_mod_eq)
    qed
  qed
qed

lemma node_id_inj: "node_id a = node_id b \<Longrightarrow> a = b"
  by (auto simp: node_id_def dest: show_nat_inj)

section \<open>Paths\<close>

text \<open>
  \<open>tpaths\<close> lists the paths of the nodes of a value in pre-order. A key is plain when it
  holds neither a dot nor an opening bracket, the two characters that start a path
  segment.
\<close>

fun all_keys :: "(string \<Rightarrow> bool) \<Rightarrow> 'n json \<Rightarrow> bool" where
  "all_keys P (JArr xs) = list_all (all_keys P) xs"
| "all_keys P (JObj kvs) = list_all (\<lambda>(k, v). P k \<and> all_keys P v) kvs"
| "all_keys P _ = True"

definition plain_key :: "string \<Rightarrow> bool" where
  "plain_key k = (CHR ''.'' \<notin> set k \<and> CHR ''['' \<notin> set k)"

function tpaths :: "'n json \<Rightarrow> string \<Rightarrow> string list" where
  "tpaths v p = p # concat (map (\<lambda>(c, cl, cp). tpaths c cp) (kids v p))"
  by pat_completeness auto
termination
  by (relation "measure (\<lambda>(v, p). size v)") (auto dest: kids_smaller)

declare tpaths.simps [simp del]

lemma concat_numbered:
  "(\<And>c m. (c, m) \<in> set (numbered sz cs n) \<Longrightarrow> f (c, m) = g c) \<Longrightarrow>
     concat (map f (numbered sz cs n)) = concat (map g cs)"
  by (induction cs arbitrary: n) auto

lemma paths_tnodes: "map (\<lambda>n. path (data n)) (tnodes dark v lbl p n) = tpaths v p"
proof (induction dark v lbl p n rule: tnodes.induct)
  case (1 dark v lbl p n)
  have "concat (map (\<lambda>km. map (\<lambda>n. path (data n)) ((\<lambda>((c, cl, cp), m). tnodes dark c cl cp m) km))
          (numbered (\<lambda>k. jsize (fst k)) (kids v p) (Suc n)))
        = concat (map (\<lambda>(c, cl, cp). tpaths c cp) (kids v p))"
    by (rule concat_numbered) (auto simp: 1)
  then show ?case
    by (subst tnodes.simps, subst tpaths.simps)
       (simp add: map_concat comp_def mk_node_def)
qed

definition tail_ok :: "string \<Rightarrow> bool" where
  "tail_ok r = (r = [] \<or> hd r = CHR ''.'' \<or> hd r = CHR ''['')"

lemma kids_path:
  "(c, cl, cp) \<in> set (kids v p) \<Longrightarrow> \<exists>s. cp = p @ s \<and> s \<noteq> [] \<and> tail_ok s"
  by (cases v) (auto simp: tail_ok_def dest!: set_zip_rightD)

lemma tail_ok_append: "s \<noteq> [] \<Longrightarrow> tail_ok s \<Longrightarrow> tail_ok (s @ r)"
  by (cases s) (simp_all add: tail_ok_def)

lemma tpaths_prefix: "q \<in> set (tpaths v p) \<Longrightarrow> \<exists>r. q = p @ r \<and> tail_ok r"
proof (induction v p arbitrary: q rule: tpaths.induct)
  case (1 v p)
  from 1(2) have "q = p \<or> (\<exists>c cl cp. (c, cl, cp) \<in> set (kids v p) \<and> q \<in> set (tpaths c cp))"
    by (subst (asm) tpaths.simps) auto
  then show ?case
  proof
    assume "q = p"
    then show ?thesis by (auto simp: tail_ok_def)
  next
    assume "\<exists>c cl cp. (c, cl, cp) \<in> set (kids v p) \<and> q \<in> set (tpaths c cp)"
    then obtain c cl cp where k: "(c, cl, cp) \<in> set (kids v p)" and q: "q \<in> set (tpaths c cp)"
      by blast
    from 1(1) [OF k refl refl q] obtain r where r: "q = cp @ r" "tail_ok r" by auto
    from kids_path [OF k] obtain s where s: "cp = p @ s" "s \<noteq> []" "tail_ok s" by blast
    from r s have "q = p @ (s @ r)" by simp
    with tail_ok_append [OF s(2,3)] show ?thesis by blast
  qed
qed

lemma tpaths_child_longer:
  "(c, cl, cp) \<in> set (kids v p) \<Longrightarrow> q \<in> set (tpaths c cp) \<Longrightarrow> q \<noteq> p"
proof -
  assume k: "(c, cl, cp) \<in> set (kids v p)" and q: "q \<in> set (tpaths c cp)"
  from tpaths_prefix [OF q] obtain r where r: "q = cp @ r" by blast
  from kids_path [OF k] obtain s where s: "cp = p @ s" "s \<noteq> []" by blast
  from r s show ?thesis by simp
qed

lemma takeWhile_stop:
  "\<forall>x\<in>set k. P x \<Longrightarrow> r = [] \<or> \<not> P (hd r) \<Longrightarrow> takeWhile P (k @ r) = k"
  by (cases r) (auto simp: takeWhile_append2)

lemma plain_apart:
  assumes "plain_key k" "plain_key k'" "tail_ok r" "tail_ok r'" "k @ r = k' @ r'"
  shows "k = k'"
proof -
  let ?P = "\<lambda>c. c \<noteq> CHR ''.'' \<and> c \<noteq> CHR ''[''"
  have k: "\<forall>x\<in>set k. ?P x" "\<forall>x\<in>set k'. ?P x"
    using assms(1,2) unfolding plain_key_def by blast+
  have r: "r = [] \<or> \<not> ?P (hd r)" "r' = [] \<or> \<not> ?P (hd r')"
    using assms(3,4) unfolding tail_ok_def by blast+
  have "takeWhile ?P (k @ r) = k" by (rule takeWhile_stop [OF k(1) r(1)])
  moreover have "takeWhile ?P (k' @ r') = k'" by (rule takeWhile_stop [OF k(2) r(2)])
  ultimately show ?thesis using assms(5) by simp
qed

lemma index_apart:
  assumes "show_nat i @ CHR '']'' # r = show_nat j @ CHR '']'' # r'"
  shows "i = j"
proof -
  let ?P = "\<lambda>c. c \<in> set ''0123456789''"
  have d: "\<forall>x\<in>set (show_nat i). ?P x" "\<forall>x\<in>set (show_nat j). ?P x"
    using show_nat_digits [of i] show_nat_digits [of j] by blast+
  have "takeWhile ?P (show_nat i @ (CHR '']'' # r)) = show_nat i"
    by (rule takeWhile_stop [OF d(1)]) simp
  moreover have "takeWhile ?P (show_nat j @ (CHR '']'' # r')) = show_nat j"
    by (rule takeWhile_stop [OF d(2)]) simp
  ultimately have "show_nat i = show_nat j" using assms by simp
  then show ?thesis by (rule show_nat_inj)
qed

lemma kids_apart:
  assumes wf: "json_wf v" and keys: "all_keys plain_key v"
    and ij: "i < j" "j < length (kids v p)"
    and r: "tail_ok r" "tail_ok r'"
  shows "snd (snd (kids v p ! i)) @ r \<noteq> snd (snd (kids v p ! j)) @ r'"
proof (cases v)
  case (JArr xs)
  with ij have "i < length xs" "j < length xs" by simp_all
  then show ?thesis using ij JArr by (auto dest: index_apart)
next
  case (JObj kvs)
  with ij have l: "i < length kvs" "j < length kvs" by simp_all
  show ?thesis
  proof
    assume e: "snd (snd (kids v p ! i)) @ r = snd (snd (kids v p ! j)) @ r'"
    have pk: "plain_key (fst (kvs ! i))" "plain_key (fst (kvs ! j))"
      using keys JObj l by (auto simp: list_all_length split_def)
    from e JObj l have "fst (kvs ! i) @ r = fst (kvs ! j) @ r'"
      by (simp add: split_def)
    from plain_apart [OF pk r this] have eq: "fst (kvs ! i) = fst (kvs ! j)" .
    have "distinct (map fst kvs)" using wf JObj by simp
    then have "(map fst kvs ! i = map fst kvs ! j) = (i = j)"
      by (rule nth_eq_iff_index_eq) (use l in simp_all)
    with eq l have "i = j" by simp
    with ij(1) show False by simp
  qed
qed (use ij in simp_all)

lemma kids_wf: "(c, cl, cp) \<in> set (kids v p) \<Longrightarrow> json_wf v \<Longrightarrow> json_wf c"
  by (cases v) (auto simp: list_all_iff dest!: set_zip_leftD)

lemma kids_all_keys: "(c, cl, cp) \<in> set (kids v p) \<Longrightarrow> all_keys P v \<Longrightarrow> all_keys P c"
  by (cases v) (auto simp: list_all_iff dest!: set_zip_leftD)

lemma distinct_concat_nth:
  "(\<And>i. i < length xss \<Longrightarrow> distinct (xss ! i)) \<Longrightarrow>
   (\<And>i j. i < j \<Longrightarrow> j < length xss \<Longrightarrow> set (xss ! i) \<inter> set (xss ! j) = {}) \<Longrightarrow>
   distinct (concat xss)"
proof (induction xss)
  case Nil
  then show ?case by simp
next
  case (Cons xs xss)
  have d: "distinct xs" using Cons.prems(1) [of 0] by simp
  have r: "distinct (concat xss)"
  proof (rule Cons.IH)
    fix i assume "i < length xss"
    then show "distinct (xss ! i)" using Cons.prems(1) [of "Suc i"] by simp
  next
    fix i j assume "i < j" "j < length xss"
    then show "set (xss ! i) \<inter> set (xss ! j) = {}" using Cons.prems(2) [of "Suc i" "Suc j"] by simp
  qed
  have "set xs \<inter> set ys = {}" if "ys \<in> set xss" for ys
  proof -
    from that obtain j where "j < length xss" "ys = xss ! j" by (auto simp: in_set_conv_nth)
    then show ?thesis using Cons.prems(2) [of 0 "Suc j"] by simp
  qed
  with d r show ?case by auto
qed

lemma tpaths_distinct:
  "json_wf v \<Longrightarrow> all_keys plain_key v \<Longrightarrow> distinct (tpaths v p)"
proof (induction v p rule: tpaths.induct)
  case (1 v p)
  let ?xss = "map (\<lambda>(c, cl, cp). tpaths c cp) (kids v p)"
  have notp: "p \<notin> set (concat ?xss)"
    by (auto dest: tpaths_child_longer)
  have "distinct (concat ?xss)"
  proof (rule distinct_concat_nth)
    fix i assume "i < length ?xss"
    then have i: "i < length (kids v p)" by simp
    obtain c cl cp where k: "kids v p ! i = (c, cl, cp)" by (cases "kids v p ! i") auto
    then have m: "(c, cl, cp) \<in> set (kids v p)" using i by (metis nth_mem)
    have "distinct (tpaths c cp)"
      using 1(1) [OF m refl refl] kids_wf [OF m 1(2)] kids_all_keys [OF m 1(3)] by simp
    then show "distinct (?xss ! i)" using i k by simp
  next
    fix i j assume ij: "i < j" "j < length ?xss"
    then have l: "i < length (kids v p)" "j < length (kids v p)" by simp_all
    show "set (?xss ! i) \<inter> set (?xss ! j) = {}"
    proof (rule ccontr)
      assume "set (?xss ! i) \<inter> set (?xss ! j) \<noteq> {}"
      then obtain q where q: "q \<in> set (?xss ! i)" "q \<in> set (?xss ! j)" by blast
      from q l have "q \<in> set (tpaths (fst (kids v p ! i)) (snd (snd (kids v p ! i))))"
        and "q \<in> set (tpaths (fst (kids v p ! j)) (snd (snd (kids v p ! j))))"
        by (simp_all add: split_def)
      then obtain r r' where "q = snd (snd (kids v p ! i)) @ r" "tail_ok r"
        "q = snd (snd (kids v p ! j)) @ r'" "tail_ok r'"
        by (blast dest: tpaths_prefix)
      with kids_apart [OF 1(2,3) ij(1) l(2), of r r'] show False by simp
    qed
  qed
  with notp show ?case by (subst tpaths.simps) simp
qed

text \<open>
  C1. The claim is that for every value the paths of the produced nodes are pairwise
  distinct. A path is the concatenation of the keys with no escaping, so the object
  with the key \<open>a.b\<close> next to the key \<open>a\<close> holding an object with the key \<open>b\<close> gives the
  path \<open>$.a.b\<close> to two nodes.
\<close>

theorem createTree_paths_collide:
  "json_wf (JObj [(''a.b'', JNull), (''a'', JObj [(''b'', JNull)])] :: unit json) \<and>
   \<not> distinct (map (\<lambda>n. path (data n))
        (fst (createTree_default True
           (JObj [(''a.b'', JNull), (''a'', JObj [(''b'', JNull)])] :: unit json))))"
  by code_simp

text \<open>
  C1, amended. For every value whose objects hold every key once and whose keys are
  plain, the paths of the produced nodes are pairwise distinct.
\<close>

theorem createTree_paths_distinct:
  assumes "json_wf v" and "all_keys plain_key v"
  shows "distinct (map (\<lambda>n. path (data n)) (fst (createTree_default dark v)))"
  using assms by (simp add: createTree_default_def createTree_char paths_tnodes tpaths_distinct)

theorem createTree_paths_distinct_witness:
  "json_wf (JObj [(''a'', JArr [JNull, JStr ''x'']), (''b'', JObj [(''c'', JBool True)])] :: unit json) \<and>
   all_keys plain_key (JObj [(''a'', JArr [JNull, JStr ''x'']), (''b'', JObj [(''c'', JBool True)])] :: unit json) \<and>
   distinct (map (\<lambda>n. path (data n))
     (fst (createTree_default True
        (JObj [(''a'', JArr [JNull, JStr ''x'']), (''b'', JObj [(''c'', JBool True)])] :: unit json))))"
proof -
  let ?W = "JObj [(''a'', JArr [JNull, JStr ''x'']), (''b'', JObj [(''c'', JBool True)])] :: unit json"
  have h1: "json_wf ?W" by simp
  have h2: "all_keys plain_key ?W" by (simp add: plain_key_def)
  from createTree_paths_distinct [OF h1 h2, of True] h1 h2 show ?thesis by blast
qed

section \<open>Searching a generated path\<close>

definition no_trailing_space :: "string \<Rightarrow> bool" where
  "no_trailing_space k = (k = [] \<or> \<not> is_space (last k))"

lemma trim_id: "s \<noteq> [] \<Longrightarrow> \<not> is_space (hd s) \<Longrightarrow> \<not> is_space (last s) \<Longrightarrow> trim s = s"
proof -
  assume s: "s \<noteq> []" and h: "\<not> is_space (hd s)" and l: "\<not> is_space (last s)"
  have a: "dropWhile is_space s = s" using s h by (cases s) simp_all
  have "rev s \<noteq> []" "\<not> is_space (hd (rev s))" using s l by (simp_all add: hd_rev)
  then have b: "dropWhile is_space (rev s) = rev s" by (cases "rev s") simp_all
  show ?thesis by (simp add: trim_def a b)
qed

lemma not_space_chars [simp]:
  "\<not> is_space CHR ''.''" "\<not> is_space CHR '']''" "\<not> is_space CHR ''$''"
  by (simp_all add: is_space_def)

lemma kids_last:
  assumes "(c, cl, cp) \<in> set (kids v p)" "all_keys no_trailing_space v"
  shows "cp \<noteq> [] \<and> \<not> is_space (last cp)"
proof (cases v)
  case (JArr xs)
  with assms(1) show ?thesis by auto
next
  case (JObj kvs)
  with assms obtain k where "(k, c) \<in> set kvs" "cp = p @ ''.'' @ k" "no_trailing_space k"
    by (auto simp: list_all_iff)
  then show ?thesis by (cases "k = []") (auto simp: no_trailing_space_def)
qed (use assms in simp_all)

lemma tpaths_last:
  "q \<in> set (tpaths v p) \<Longrightarrow> all_keys no_trailing_space v \<Longrightarrow> p \<noteq> [] \<Longrightarrow>
     \<not> is_space (last p) \<Longrightarrow> q \<noteq> [] \<and> \<not> is_space (last q)"
proof (induction v p arbitrary: q rule: tpaths.induct)
  case (1 v p)
  from 1(2) have "q = p \<or> (\<exists>c cl cp. (c, cl, cp) \<in> set (kids v p) \<and> q \<in> set (tpaths c cp))"
    by (subst (asm) tpaths.simps) auto
  then show ?case
  proof
    assume "q = p"
    with 1 show ?thesis by simp
  next
    assume "\<exists>c cl cp. (c, cl, cp) \<in> set (kids v p) \<and> q \<in> set (tpaths c cp)"
    then obtain c cl cp where k: "(c, cl, cp) \<in> set (kids v p)" and q: "q \<in> set (tpaths c cp)"
      by blast
    from kids_last [OF k 1(3)] have "cp \<noteq> []" "\<not> is_space (last cp)" by simp_all
    with 1(1) [OF k refl refl q kids_all_keys [OF k 1(3)]] show ?thesis by simp
  qed
qed

lemma find_distinct:
  "distinct (map f xs) \<Longrightarrow> k < length xs \<Longrightarrow> find (\<lambda>x. f x = f (xs ! k)) xs = Some (xs ! k)"
proof -
  assume d: "distinct (map f xs)" and k: "k < length xs"
  have "\<forall>j<k. f (xs ! j) \<noteq> f (xs ! k)"
  proof (intro allI impI)
    fix j assume j: "j < k"
    have "(map f xs ! j = map f xs ! k) = (j = k)"
      by (rule nth_eq_iff_index_eq [OF d]) (use j k in simp_all)
    with j k show "f (xs ! j) \<noteq> f (xs ! k)" by simp
  qed
  with k show ?thesis unfolding find_Some_iff by blast
qed

lemma all_keys_conj: "all_keys (\<lambda>k. P k \<and> Q k) v \<Longrightarrow> all_keys P v \<and> all_keys Q v"
  by (induction v) (auto simp: list_all_iff snds.simps)

text \<open>
  C2. The claim is that searching the path of any produced node returns that node's id.
  With the two colliding paths above the search returns the first of the two nodes, and
  the path of a key that ends in a space is trimmed before the comparison and matches no
  node.
\<close>

theorem search_misses_generated_path:
  "(let ns = fst (createTree_default True (JObj [(''a.b'', JNull), (''a'', JObj [(''b'', JNull)])] :: unit json))
    in map_option nid (matchedNode ns (path (data (ns ! 3)))) = Some (nid (ns ! 1)) \<and>
       nid (ns ! 1) \<noteq> nid (ns ! 3)) \<and>
   (let ns = fst (createTree_default True (JObj [(''a '', JNull)] :: unit json))
    in json_wf (JObj [(''a '', JNull)] :: unit json) \<and> matchedNode ns (path (data (ns ! 1))) = None)"
  by code_simp

text \<open>
  C2, amended. For every value whose objects hold every key once and whose keys are
  plain and do not end in a white-space character, searching the path of the node at
  any position of the produced list returns that very node.
\<close>

theorem search_finds_generated_path:
  assumes wf: "json_wf v"
    and keys: "all_keys (\<lambda>k. plain_key k \<and> no_trailing_space k) v"
    and k: "k < length (fst (createTree_default dark v))"
  shows "matchedNode (fst (createTree_default dark v))
           (path (data (fst (createTree_default dark v) ! k)))
         = Some (fst (createTree_default dark v) ! k)"
proof -
  let ?ns = "fst (createTree_default dark v)"
  let ?q = "path (data (?ns ! k))"
  have ps: "map (\<lambda>n. path (data n)) ?ns = tpaths v ''$''"
    by (simp add: createTree_default_def createTree_char paths_tnodes)
  from keys have k1: "all_keys plain_key v" and k2: "all_keys no_trailing_space v"
    by (auto dest: all_keys_conj)
  have d: "distinct (map (\<lambda>n. path (data n)) ?ns)"
    unfolding ps by (rule tpaths_distinct [OF wf k1])
  have "?q = map (\<lambda>n. path (data n)) ?ns ! k" using k by simp
  then have q: "?q \<in> set (tpaths v ''$'')" using k ps by (metis length_map nth_mem)
  from tpaths_prefix [OF q] obtain r where r: "?q = ''$'' @ r" by blast
  from tpaths_last [OF q k2] have l: "\<not> is_space (last ?q)" by simp
  have t: "trim ?q = ?q" by (rule trim_id) (use r l in simp_all)
  have "startsWith ?q ''$''" unfolding startsWith_def by (subst r) simp
  then have n: "normalizedPath ?q = ?q" by (simp only: normalizedPath_def t if_True)
  show ?thesis
    unfolding matchedNode_def n by (rule find_distinct [OF d k])
qed

theorem search_finds_generated_path_witness:
  "json_wf (JObj [(''a'', JArr [JNull, JStr ''x'']), (''b'', JObj [(''c'', JBool True)])] :: unit json) \<and>
   all_keys (\<lambda>k. plain_key k \<and> no_trailing_space k)
     (JObj [(''a'', JArr [JNull, JStr ''x'']), (''b'', JObj [(''c'', JBool True)])] :: unit json) \<and>
   3 < length (fst (createTree_default True
     (JObj [(''a'', JArr [JNull, JStr ''x'']), (''b'', JObj [(''c'', JBool True)])] :: unit json))) \<and>
   matchedNode
     (fst (createTree_default True
        (JObj [(''a'', JArr [JNull, JStr ''x'']), (''b'', JObj [(''c'', JBool True)])] :: unit json)))
     (path (data (fst (createTree_default True
        (JObj [(''a'', JArr [JNull, JStr ''x'']), (''b'', JObj [(''c'', JBool True)])] :: unit json)) ! 3)))
   = Some (fst (createTree_default True
        (JObj [(''a'', JArr [JNull, JStr ''x'']), (''b'', JObj [(''c'', JBool True)])] :: unit json)) ! 3)"
proof -
  let ?W = "JObj [(''a'', JArr [JNull, JStr ''x'']), (''b'', JObj [(''c'', JBool True)])] :: unit json"
  have h1: "json_wf ?W" by simp
  have h2: "all_keys (\<lambda>k. plain_key k \<and> no_trailing_space k) ?W"
    by (simp add: plain_key_def no_trailing_space_def is_space_def)
  have h3: "3 < length (fst (createTree_default True ?W))" by code_simp
  from search_finds_generated_path [OF h1 h2 h3] h1 h2 h3 show ?thesis by blast
qed

section \<open>Identifiers and edges\<close>

text \<open>
  \<open>contains_pairs\<close> is the containment relation of a value on the pre-order numbers: the
  pair of a number and the number of each value directly inside it.
\<close>

function contains_pairs :: "'n json \<Rightarrow> nat \<Rightarrow> (nat \<times> nat) list" where
  "contains_pairs v n =
     concat (map (\<lambda>(c, m). (n, m) # contains_pairs c m) (numbered jsize (children v) (Suc n)))"
  by pat_completeness auto
termination
  by (relation "measure (\<lambda>(v, n). size v)") (auto dest!: numbered_mem children_smaller)

declare contains_pairs.simps [simp del]

lemma contains_pairs_edges_of: "contains_pairs v n = edges_of (ntree_of v n)"
proof (induction v n rule: contains_pairs.induct)
  case (1 v n)
  have "concat (map (\<lambda>(c, m). (n, m) # contains_pairs c m) (numbered jsize (children v) (Suc n)))
      = concat (map (\<lambda>(c, m). (n, m) # edges_of (ntree_of c m)) (numbered jsize (children v) (Suc n)))"
    by (rule arg_cong [where f = concat], rule map_cong [OF refl]) (auto simp: 1)
  also have "\<dots> = edges_of (ntree_of v n)"
    by (subst ntree_of.simps) (simp add: comp_def split_def)
  finally show ?case by (subst contains_pairs.simps)
qed

lemma upt_numbered:
  "(\<And>c m. (c, m) \<in> set (numbered sz cs n) \<Longrightarrow> f (c, m) = map g [m..<m + sz c]) \<Longrightarrow>
     concat (map f (numbered sz cs n)) = map g [n..<n + sum_list (map sz cs)]"
proof (induction cs arbitrary: n)
  case Nil
  then show ?case by simp
next
  case (Cons c cs)
  have a: "f (c, n) = map g [n..<n + sz c]" using Cons.prems by simp
  have b: "concat (map f (numbered sz cs (n + sz c))) = map g [n + sz c..<n + sz c + sum_list (map sz cs)]"
    by (rule Cons.IH) (simp add: Cons.prems)
  have "[n..<n + (sz c + sum_list (map sz cs))] = [n..<n + sz c] @ [n + sz c..<n + sz c + sum_list (map sz cs)]"
    using upt_add_eq_append [of n "n + sz c" "sum_list (map sz cs)"] by (simp add: add.assoc)
  then show ?case by (simp add: a b add.assoc)
qed

lemma ids_tnodes: "map nid (tnodes dark v lbl p n) = map node_id [n..<n + jsize v]"
proof (induction dark v lbl p n rule: tnodes.induct)
  case (1 dark v lbl p n)
  have "concat (map (\<lambda>km. map nid ((\<lambda>((c, cl, cp), m). tnodes dark c cl cp m) km))
          (numbered (\<lambda>k. jsize (fst k)) (kids v p) (Suc n)))
        = map node_id [Suc n..<Suc n + sum_list (map (\<lambda>k. jsize (fst k)) (kids v p))]"
    by (rule upt_numbered) (auto simp: 1)
  moreover have "[n..<n + jsize v] = n # [Suc n..<Suc n + sum_list (map (\<lambda>k. jsize (fst k)) (kids v p))]"
    by (simp add: jsize_kids [of v p] upt_conv_Cons del: upt_Suc)
  ultimately show ?case
    by (subst tnodes.simps) (simp add: map_concat comp_def mk_node_def del: upt_Suc)
qed

lemma jsize_children: "jsize v = Suc (sum_list (map jsize (children v)))"
  by (cases v) (simp_all add: comp_def split_def)

lemma targets_edges_of: "map snd (edges_of (ntree_of v n)) = [Suc n..<n + jsize v]"
proof (induction v n rule: ntree_of.induct)
  case (1 v n)
  have "concat (map (\<lambda>km. map snd ((\<lambda>(c, m). (n, m) # edges_of (ntree_of c m)) km))
          (numbered jsize (children v) (Suc n)))
        = map (\<lambda>x. x) [Suc n..<Suc n + sum_list (map jsize (children v))]"
  proof (rule upt_numbered)
    fix c m assume cm: "(c, m) \<in> set (numbered jsize (children v) (Suc n))"
    have "0 < jsize c" by (simp add: jsize_children [of c])
    then have "[m..<m + jsize c] = m # [Suc m..<m + jsize c]" by (simp add: upt_conv_Cons del: upt_Suc)
    then show "map snd (case (c, m) of (c, m) \<Rightarrow> (n, m) # edges_of (ntree_of c m)) = map (\<lambda>x. x) [m..<m + jsize c]"
      using 1 [OF cm] by simp
  qed
  then show ?case
    by (subst ntree_of.simps) (simp add: map_concat comp_def split_def jsize_children [of v] del: upt_Suc)
qed

lemma filter_distinct_single:
  "distinct (map f xs) \<Longrightarrow> x \<in> set xs \<Longrightarrow> filter (\<lambda>y. f y = f x) xs = [x]"
proof (induction xs)
  case Nil
  then show ?case by simp
next
  case (Cons a xs)
  show ?case
  proof (cases "a = x")
    case True
    have "filter (\<lambda>y. f y = f x) xs = []"
      using Cons.prems(1) True by (auto simp: filter_empty_conv image_iff)
    with True show ?thesis by simp
  next
    case False
    with Cons.prems have x: "x \<in> set xs" by simp
    with Cons.prems(1) have "f a \<noteq> f x" by auto
    with Cons.IH x Cons.prems(1) show ?thesis by simp
  qed
qed

lemma distinct_node_ids: "distinct (map node_id [a..<b])"
  by (simp add: distinct_map inj_on_def) (blast dest: node_id_inj)

lemma numbered_range:
  "(c, m) \<in> set (numbered sz cs n) \<Longrightarrow> n \<le> m \<and> m + sz c \<le> n + sum_list (map sz cs)"
  by (induction cs arbitrary: n) (auto split: if_splits, force+)

lemma sources_edges_of:
  "(p, c) \<in> set (edges_of (ntree_of v n)) \<Longrightarrow> n \<le> p \<and> p < n + jsize v"
proof (induction v n arbitrary: p c rule: ntree_of.induct)
  case (1 v n)
  from 1(2) obtain d m where dm: "(d, m) \<in> set (numbered jsize (children v) (Suc n))"
    and pc: "(p, c) = (n, m) \<or> (p, c) \<in> set (edges_of (ntree_of d m))"
    by (subst (asm) ntree_of.simps) (auto simp: split_def)
  from numbered_range [OF dm] have r: "Suc n \<le> m" "m + jsize d \<le> n + jsize v"
    by (simp_all add: jsize_children [of v])
  from pc show ?case
  proof
    assume "(p, c) = (n, m)"
    then show ?thesis by (simp add: jsize_children [of v])
  next
    assume "(p, c) \<in> set (edges_of (ntree_of d m))"
    from 1(1) [OF dm refl this] r show ?thesis by simp
  qed
qed

lemma createTree_default_char:
  "createTree_default dark v = (tnodes dark v ''root'' ''$'' 0, tedges (ntree_of v 0))"
  by (simp add: createTree_default_def createTree_char parent_edge_def)

lemma node_id_eq_iff [simp]: "(node_id a = node_id b) = (a = b)"
  by (auto dest: node_id_inj)

lemma list_ex_map: "list_ex (\<lambda>e. f e = i) es = (i \<in> set (map f es))"
  by (auto simp: list_ex_iff)

lemma filter_none: "(\<And>x. x \<in> set xs \<Longrightarrow> \<not> P x) \<Longrightarrow> filter P xs = []"
  by (simp add: filter_empty_conv)

text \<open>
  C3. For every value the produced node list is not empty, its ids are pairwise distinct,
  its first node is the only node that is the target of no edge, every other position
  has exactly one parent in the containment relation, the edges are exactly the pairs
  of that relation read as ids, and every node but the first is the target of exactly
  one edge, whose source is the id of its parent.
\<close>

theorem createTree_is_tree:
  "let ns = fst (createTree_default dark v); es = snd (createTree_default dark v) in
     ns \<noteq> [] \<and> distinct (map nid ns) \<and>
     filter (\<lambda>n. \<not> list_ex (\<lambda>e. target e = nid n) es) ns = [hd ns] \<and>
     map snd (contains_pairs v 0) = [1..<length ns] \<and>
     map (\<lambda>e. (source e, target e)) es
       = map (\<lambda>(p, c). (nid (ns ! p), nid (ns ! c))) (contains_pairs v 0) \<and>
     (\<forall>k. 0 < k \<and> k < length ns \<longrightarrow>
        (\<exists>p e. (p, k) \<in> set (contains_pairs v 0) \<and>
               filter (\<lambda>e. target e = nid (ns ! k)) es = [e] \<and> source e = nid (ns ! p)))"
proof -
  let ?ns = "tnodes dark v ''root'' ''$'' 0"
  let ?E = "contains_pairs v 0"
  let ?g = "\<lambda>(p, c). mk_edge (node_id p) (node_id c)"
  let ?es = "map ?g ?E"
  let ?N = "jsize v"
  have es: "tedges (ntree_of v 0) = ?es"
    by (simp add: tedges_def contains_pairs_edges_of)
  have len: "length ?ns = ?N" by (rule length_tnodes)
  have ids: "map nid ?ns = map node_id [0..<?N]" using ids_tnodes [of dark v _ _ 0] by simp
  have idk: "nid (?ns ! k) = node_id k" if "k < ?N" for k
  proof -
    have "nid (?ns ! k) = map nid ?ns ! k" using that len by simp
    also have "\<dots> = node_id k" unfolding ids using that by simp
    finally show ?thesis .
  qed
  have tg: "map snd ?E = [1..<?N]"
    using targets_edges_of [of v 0] by (simp add: contains_pairs_edges_of)
  have src: "p < ?N" if "(p, c) \<in> set ?E" for p c
    using sources_edges_of [of p c v 0] that by (simp add: contains_pairs_edges_of)
  have tgt: "0 < c \<and> c < ?N" if "(p, c) \<in> set ?E" for p c
  proof -
    from that have "c \<in> set (map snd ?E)" by force
    then show ?thesis unfolding tg by simp
  qed
  have pos: "0 < ?N" by (simp add: jsize_children [of v])
  have c1: "?ns \<noteq> []" using len pos by auto
  have c2: "distinct (map nid ?ns)" unfolding ids by (rule distinct_node_ids)
  have targets: "map target ?es = map node_id [1..<?N]"
  proof -
    have "map target ?es = map node_id (map snd ?E)"
      by (simp add: comp_def split_def mk_edge_def)
    then show ?thesis by (simp only: tg)
  qed
  have hd: "nid (hd ?ns) = node_id 0"
    using idk [OF pos] c1 by (simp add: hd_conv_nth)
  have c3: "filter (\<lambda>n. \<not> list_ex (\<lambda>e. target e = nid n) ?es) ?ns = [hd ?ns]"
  proof -
    obtain n0 rest where nr: "?ns = n0 # rest" using c1 by (cases ?ns) auto
    have hd': "nid n0 = node_id 0" using hd nr by simp
    have root: "\<not> list_ex (\<lambda>e. target e = nid n0) ?es"
    proof
      assume "list_ex (\<lambda>e. target e = nid n0) ?es"
      then have "node_id 0 \<in> set (map target ?es)" by (simp only: list_ex_map hd')
      then have "node_id 0 \<in> set (map node_id [1..<?N])" by (simp only: targets)
      then show False by (auto dest: node_id_inj)
    qed
    have "map nid rest = map node_id [1..<?N]"
    proof -
      have "map nid rest = tl (map nid ?ns)" by (simp add: nr)
      also have "\<dots> = map node_id (tl [0..<?N])" by (simp only: ids map_tl)
      also have "tl [0..<?N] = [1..<?N]" by (simp add: tl_upt)
      finally show ?thesis .
    qed
    then have mr: "map nid rest = map target ?es" by (simp only: targets)
    have "\<not> \<not> list_ex (\<lambda>e. target e = nid x) ?es" if "x \<in> set rest" for x
    proof -
      from that have "nid x \<in> set (map nid rest)" by simp
      then have "nid x \<in> set (map target ?es)" by (simp only: mr)
      then show ?thesis by (simp only: list_ex_map not_not)
    qed
    then have "filter (\<lambda>n. \<not> list_ex (\<lambda>e. target e = nid n) ?es) rest = []"
      by (rule filter_none)
    with root show ?thesis by (simp add: nr)
  qed
  have c5: "map (\<lambda>e. (source e, target e)) ?es = map (\<lambda>(p, c). (nid (?ns ! p), nid (?ns ! c))) ?E"
  proof -
    have "map (\<lambda>e. (source e, target e)) ?es = map (\<lambda>(p, c). (node_id p, node_id c)) ?E"
      by (simp add: comp_def split_def mk_edge_def)
    also have "\<dots> = map (\<lambda>(p, c). (nid (?ns ! p), nid (?ns ! c))) ?E"
      by (rule map_cong [OF refl]) (auto simp: idk dest: src tgt)
    finally show ?thesis .
  qed
  have c6: "\<exists>p e. (p, k) \<in> set ?E \<and> filter (\<lambda>e. target e = nid (?ns ! k)) ?es = [e] \<and> source e = nid (?ns ! p)"
    if k: "0 < k" "k < ?N" for k
  proof -
    from k have "k \<in> set (map snd ?E)" unfolding tg by simp
    then obtain p where pk: "(p, k) \<in> set ?E" by auto
    have d: "distinct (map snd ?E)" unfolding tg by simp
    have "filter (\<lambda>e. target e = nid (?ns ! k)) ?es = map ?g (filter (\<lambda>x. snd x = snd (p, k)) ?E)"
      by (simp add: filter_map comp_def split_def mk_edge_def idk [OF k(2)])
    also have "\<dots> = [?g (p, k)]"
      by (simp only: filter_distinct_single [OF d pk] list.map)
    finally have "filter (\<lambda>e. target e = nid (?ns ! k)) ?es = [mk_edge (node_id p) (node_id k)]"
      by simp
    moreover have "source (mk_edge (node_id p) (node_id k)) = nid (?ns ! p)"
      using src [OF pk] by (simp add: mk_edge_def idk)
    ultimately show ?thesis using pk by blast
  qed
  show ?thesis
    unfolding Let_def createTree_default_char fst_conv snd_conv es
    using c1 c2 c3 c5 c6 tg len by simp
qed

theorem createTree_is_tree_witness:
  "let ns = fst (createTree_default True (JArr [JNull, JObj [(''k'', JBool True)]] :: unit json));
       es = snd (createTree_default True (JArr [JNull, JObj [(''k'', JBool True)]] :: unit json)) in
     (0::nat) < 3 \<and> 3 < length ns \<and>
     (\<exists>p e. (p, 3) \<in> set (contains_pairs (JArr [JNull, JObj [(''k'', JBool True)]] :: unit json) 0) \<and>
            filter (\<lambda>e. target e = nid (ns ! 3)) es = [e] \<and> source e = nid (ns ! p))"
proof -
  let ?W = "JArr [JNull, JObj [(''k'', JBool True)]] :: unit json"
  have pos: "(0::nat) < 3" by simp
  have len: "3 < length (fst (createTree_default True ?W))" by code_simp
  note t = createTree_is_tree [of True ?W, unfolded Let_def]
  note every = t [THEN conjunct2, THEN conjunct2, THEN conjunct2, THEN conjunct2, THEN conjunct2]
  have ex: "\<exists>p e. (p, 3) \<in> set (contains_pairs ?W 0) \<and>
      filter (\<lambda>e. target e = nid (fst (createTree_default True ?W) ! 3))
        (snd (createTree_default True ?W)) = [e] \<and>
      source e = nid (fst (createTree_default True ?W) ! p)"
    by (rule every [rule_format, of 3]) (rule conjI [OF pos len])
  show ?thesis unfolding Let_def by (rule conjI [OF pos conjI [OF len ex]])
qed

text \<open>
  C8. The claim is that a second call on the same input gives the same tree with fresh
  ids. The counter is a variable of one call and starts at zero in each, so the second
  call returns the ids of the first.
\<close>

theorem createTree_rebuild_reuses_ids:
  "(let first = createTree_default True (JArr [JNull] :: unit json);
        second = createTree_default True (JArr [JNull] :: unit json)
    in map nid (fst first) = [''node-0'', ''node-1''] \<and>
       map nid (fst second) = [''node-0'', ''node-1''] \<and>
       set (map nid (fst first)) \<inter> set (map nid (fst second)) \<noteq> {})"
  by code_simp

text \<open>
  C8, amended. \<open>createTree\<close> is a function of the theme flag and the value alone, and
  in every call the node at position \<open>k\<close> of the pre-order has the id \<open>node-k\<close>: a second
  call on the same input returns the identical tree, ids included.
\<close>

theorem createTree_ids_from_zero:
  "map nid (fst (createTree_default dark v))
     = map (\<lambda>k. ''node-'' @ show_nat k) [0..<length (fst (createTree_default dark v))]"
  using ids_tnodes [of dark v _ _ 0]
  by (simp add: createTree_default_char length_tnodes node_id_def [abs_def])

section \<open>Normalising the search string\<close>

lemma dropWhile_all: "list_all P l \<Longrightarrow> dropWhile P (l @ s) = dropWhile P s"
  by (induction l) auto

lemma trim_pad:
  assumes "list_all is_space l" "list_all is_space r"
  shows "trim (l @ s @ r) = trim s"
proof -
  have a: "dropWhile is_space (l @ s @ r) = dropWhile is_space (s @ r)"
    by (rule dropWhile_all [OF assms(1)])
  have r: "list_all is_space (rev r)" using assms(2) by (simp add: list_all_iff)
  show ?thesis
  proof (cases "list_all is_space s")
    case True
    then have "list_all is_space (s @ r)" using assms(2) by simp
    then have "dropWhile is_space (s @ r) = []" using dropWhile_all [of is_space "s @ r" "[]"] by simp
    moreover have "dropWhile is_space s = []" using dropWhile_all [OF True, of "[]"] by simp
    ultimately show ?thesis by (simp only: trim_def a rev.simps dropWhile.simps)
  next
    case False
    then have "\<not> (\<forall>c\<in>set s. is_space c)" by (simp add: list_all_iff)
    then have "dropWhile is_space (s @ r) = dropWhile is_space s @ r"
      by (simp only: dropWhile_append if_False)
    then have "rev (dropWhile is_space (l @ s @ r)) = rev r @ rev (dropWhile is_space s)"
      by (simp add: a)
    then show ?thesis
      by (simp add: trim_def dropWhile_all [OF r])
  qed
qed

lemma trim_dollar_dot:
  assumes "x = [] \<or> \<not> is_space (hd x)"
  shows "trim (''$.'' @ x) = ''$.'' @ trim x"
proof -
  have a: "dropWhile is_space x = x" using assms by (cases x) auto
  have "dropWhile is_space (rev x @ ''.$'') = dropWhile is_space (rev x) @ ''.$''"
    by (simp add: dropWhile_append)
  then show ?thesis by (simp add: trim_def a)
qed

lemma trim_keeps_head:
  assumes "x \<noteq> []" "\<not> is_space (hd x)"
  shows "trim x \<noteq> [] \<and> hd (trim x) = hd x"
proof -
  obtain c cs where x: "x = c # cs" using assms(1) by (cases x) auto
  with assms(2) have c: "\<not> is_space c" by simp
  have a: "dropWhile is_space x = x" using x c by simp
  have "dropWhile is_space (rev cs @ [c]) = dropWhile is_space (rev cs) @ [c]"
    using c by (simp add: dropWhile_append)
  then have "trim x = c # rev (dropWhile is_space (rev cs))"
    by (simp add: trim_def x c)
  then show ?thesis using x by simp
qed

lemma handleSearch_same_query:
  assumes "(trim a = []) = (trim b = [])" "normalizedPath a = normalizedPath b"
  shows "handleSearch (st\<lparr>searchPath := a\<rparr>) = (handleSearch (st\<lparr>searchPath := b\<rparr>))\<lparr>searchPath := a\<rparr>"
  using assms by (simp add: handleSearch_def matchedNode_def split: option.splits)

text \<open>
  C6. The claim is that the search string is trimmed and then used as it is when it
  starts with \<open>$\<close> and with \<open>$.\<close> put in front otherwise, so that matching is the same
  with or without a leading \<open>$.\<close> and does not depend on surrounding white space. The
  first and the last part hold. The middle part fails when what follows the prefix
  itself starts with \<open>$\<close>, as the key \<open>$a\<close> does, or with white space.
\<close>

theorem prefix_changes_matching:
  "(let ns = fst (createTree_default True (JObj [(''$a'', JNull)] :: unit json))
    in json_wf (JObj [(''$a'', JNull)] :: unit json) \<and>
       map_option nid (matchedNode ns ''$.$a'') = Some ''node-1'' \<and>
       matchedNode ns ''$a'' = None) \<and>
   normalizedPath ''$. a'' \<noteq> normalizedPath '' a''"
  by code_simp

text \<open>
  C6, amended. The search string is trimmed and then used as it is when it starts with
  \<open>$\<close> and with \<open>$.\<close> put in front otherwise; white space before and after the string
  changes neither the normalised path nor the outcome of the search; and a string that
  is not empty and starts neither with white space nor with \<open>$\<close> gives the same outcome
  with and without a leading \<open>$.\<close>.
\<close>

theorem normalizedPath_matching:
  "normalizedPath s = (if startsWith (trim s) ''$'' then trim s else ''$.'' @ trim s) \<and>
   (list_all is_space l \<and> list_all is_space r \<longrightarrow>
      normalizedPath (l @ s @ r) = normalizedPath s \<and>
      matchedNode ns (l @ s @ r) = matchedNode ns s \<and>
      handleSearch (st\<lparr>searchPath := l @ s @ r\<rparr>)
        = (handleSearch (st\<lparr>searchPath := s\<rparr>))\<lparr>searchPath := l @ s @ r\<rparr>) \<and>
   (x \<noteq> [] \<and> \<not> is_space (hd x) \<and> hd x \<noteq> CHR ''$'' \<longrightarrow>
      normalizedPath (''$.'' @ x) = normalizedPath x \<and>
      matchedNode ns (''$.'' @ x) = matchedNode ns x \<and>
      handleSearch (st\<lparr>searchPath := ''$.'' @ x\<rparr>)
        = (handleSearch (st\<lparr>searchPath := x\<rparr>))\<lparr>searchPath := ''$.'' @ x\<rparr>)"
proof (intro conjI impI)
  show "normalizedPath s = (if startsWith (trim s) ''$'' then trim s else ''$.'' @ trim s)"
    by (rule normalizedPath_def)
next
  assume "list_all is_space l \<and> list_all is_space r"
  then have t: "trim (l @ s @ r) = trim s" by (simp add: trim_pad)
  show n: "normalizedPath (l @ s @ r) = normalizedPath s" by (simp only: normalizedPath_def t)
  show "matchedNode ns (l @ s @ r) = matchedNode ns s" by (simp only: matchedNode_def n)
  show "handleSearch (st\<lparr>searchPath := l @ s @ r\<rparr>)
        = (handleSearch (st\<lparr>searchPath := s\<rparr>))\<lparr>searchPath := l @ s @ r\<rparr>"
    by (rule handleSearch_same_query) (simp_all only: t n)
next
  assume h: "x \<noteq> [] \<and> \<not> is_space (hd x) \<and> hd x \<noteq> CHR ''$''"
  then have k: "trim x \<noteq> []" "hd (trim x) = hd x" using trim_keeps_head [of x] by simp_all
  from h have t: "trim (''$.'' @ x) = ''$.'' @ trim x" by (intro trim_dollar_dot) simp
  have "\<not> startsWith (trim x) ''$''"
    using k h by (cases "trim x") (auto simp: startsWith_def)
  then have nx: "normalizedPath x = ''$.'' @ trim x" by (simp add: normalizedPath_def)
  have "startsWith (''$.'' @ trim x) ''$''" by (simp add: startsWith_def)
  then have "normalizedPath (''$.'' @ x) = ''$.'' @ trim x"
    by (simp only: normalizedPath_def t if_True)
  with nx show n: "normalizedPath (''$.'' @ x) = normalizedPath x" by simp
  show "matchedNode ns (''$.'' @ x) = matchedNode ns x" by (simp only: matchedNode_def n)
  show "handleSearch (st\<lparr>searchPath := ''$.'' @ x\<rparr>)
        = (handleSearch (st\<lparr>searchPath := x\<rparr>))\<lparr>searchPath := ''$.'' @ x\<rparr>"
    by (rule handleSearch_same_query) (use k t n in simp_all)
qed

theorem normalizedPath_matching_witness:
  "list_all is_space ''  '' \<and> list_all is_space '' '' \<and>
   normalizedPath (''  '' @ ''user.name'' @ '' '') = normalizedPath ''user.name'' \<and>
   ''user.name'' \<noteq> [] \<and> \<not> is_space (hd ''user.name'') \<and> hd ''user.name'' \<noteq> CHR ''$'' \<and>
   normalizedPath (''$.'' @ ''user.name'') = normalizedPath ''user.name''"
proof -
  let ?st = "\<lparr>jsonInput = [], searchPath = [], nodes = [] :: unit RFNode list, edges = [],
              error = [], searchResult = [], themeDark = True\<rparr>"
  note t = normalizedPath_matching
    [of "''user.name''" "''  ''" "'' ''" "[] :: unit RFNode list" ?st "''user.name''"]
  have h1: "list_all is_space ''  '' \<and> list_all is_space '' ''" by (simp add: is_space_def)
  have h2: "''user.name'' \<noteq> [] \<and> \<not> is_space (hd ''user.name'') \<and> hd ''user.name'' \<noteq> CHR ''$''"
    by (simp add: is_space_def)
  have c1: "normalizedPath (''  '' @ ''user.name'' @ '' '') = normalizedPath ''user.name''"
    by (rule t [THEN conjunct2, THEN conjunct1, THEN mp, OF h1, THEN conjunct1])
  have c2: "normalizedPath (''$.'' @ ''user.name'') = normalizedPath ''user.name''"
    by (rule t [THEN conjunct2, THEN conjunct2, THEN mp, OF h2, THEN conjunct1])
  from h1 h2 c1 c2 show ?thesis by (intro conjI) (elim conjE, assumption)+
qed

text \<open>
  C9. A search string that is empty after trimming sets the highlight flag of every node
  to false and the status to the empty string; the status is the empty string only then,
  \<open>Match found!\<close> exactly when a node matches and \<open>No match found\<close> exactly when the
  string is not empty and no node matches.
\<close>

theorem handleSearch_outcomes:
  "(trim (searchPath st) = [] \<longrightarrow>
      handleSearch st =
        st\<lparr>searchResult := [],
           nodes := map (\<lambda>n. n\<lparr>data := (data n)\<lparr>isHighlighted := False\<rparr>\<rparr>) (nodes st)\<rparr> \<and>
      (\<forall>n \<in> set (nodes (handleSearch st)). \<not> isHighlighted (data n))) \<and>
   (searchResult (handleSearch st) = [] \<longleftrightarrow> trim (searchPath st) = []) \<and>
   (searchResult (handleSearch st) = ''Match found!'' \<longleftrightarrow>
      trim (searchPath st) \<noteq> [] \<and> matchedNode (nodes st) (searchPath st) \<noteq> None) \<and>
   (searchResult (handleSearch st) = ''No match found'' \<longleftrightarrow>
      trim (searchPath st) \<noteq> [] \<and> matchedNode (nodes st) (searchPath st) = None)"
  by (auto simp: handleSearch_def split: option.splits)

theorem handleSearch_outcomes_witness:
  "trim (searchPath
     \<lparr>jsonInput = [], searchPath = ''  '',
      nodes = [\<lparr>nid = ''node-0'', ntype = ''custom'',
                data = \<lparr>label = ''root'', val = Some (JNull :: unit json), dtype = TPrimitive,
                        path = ''$'', isDark = True, isHighlighted = True\<rparr>,
                position = \<lparr>px = 0, py = 0\<rparr>, sourcePosition = Bottom, targetPosition = Top\<rparr>],
      edges = [], error = [], searchResult = ''Match found!'', themeDark = True\<rparr>) = [] \<and>
   searchResult (handleSearch
     \<lparr>jsonInput = [], searchPath = ''  '',
      nodes = [\<lparr>nid = ''node-0'', ntype = ''custom'',
                data = \<lparr>label = ''root'', val = Some (JNull :: unit json), dtype = TPrimitive,
                        path = ''$'', isDark = True, isHighlighted = True\<rparr>,
                position = \<lparr>px = 0, py = 0\<rparr>, sourcePosition = Bottom, targetPosition = Top\<rparr>],
      edges = [], error = [], searchResult = ''Match found!'', themeDark = True\<rparr>) = [] \<and>
   map (\<lambda>n. isHighlighted (data n)) (nodes (handleSearch
     \<lparr>jsonInput = [], searchPath = ''  '',
      nodes = [\<lparr>nid = ''node-0'', ntype = ''custom'',
                data = \<lparr>label = ''root'', val = Some (JNull :: unit json), dtype = TPrimitive,
                        path = ''$'', isDark = True, isHighlighted = True\<rparr>,
                position = \<lparr>px = 0, py = 0\<rparr>, sourcePosition = Bottom, targetPosition = Top\<rparr>],
      edges = [], error = [], searchResult = ''Match found!'', themeDark = True\<rparr>)) = [False]"
proof -
  let ?st = "\<lparr>jsonInput = [], searchPath = ''  '',
      nodes = [\<lparr>nid = ''node-0'', ntype = ''custom'',
                data = \<lparr>label = ''root'', val = Some (JNull :: unit json), dtype = TPrimitive,
                        path = ''$'', isDark = True, isHighlighted = True\<rparr>,
                position = \<lparr>px = 0, py = 0\<rparr>, sourcePosition = Bottom, targetPosition = Top\<rparr>],
      edges = [], error = [], searchResult = ''Match found!'', themeDark = True\<rparr>"
  have h: "trim (searchPath ?st) = []" by (simp add: trim_def is_space_def)
  note t = handleSearch_outcomes [of ?st]
  note eq = t [THEN conjunct1, THEN mp, OF h, THEN conjunct1]
  have c1: "map (\<lambda>n. isHighlighted (data n)) (nodes (handleSearch ?st)) = [False]"
    by (subst eq) simp
  have c2: "searchResult (handleSearch ?st) = []"
    by (rule t [THEN conjunct2, THEN conjunct1, THEN iffD2, OF h])
  show ?thesis by (rule conjI [OF h conjI [OF c2 c1]])
qed

section \<open>The layered layout\<close>

subsection \<open>Levels of a numbered tree\<close>

text \<open>
  \<open>levels_of\<close> lists the numbers of a tree level by level, each level from left to right;
  \<open>lzip\<close> joins two such lists level by level.
\<close>

fun labels :: "ntree \<Rightarrow> nat list" where
  "labels (NT n cs) = n # concat (map labels cs)"

fun subtrees :: "ntree \<Rightarrow> ntree list" where
  "subtrees (NT n cs) = cs"

fun lzip :: "'a list list \<Rightarrow> 'a list list \<Rightarrow> 'a list list" where
  "lzip [] ys = ys"
| "lzip xs [] = xs"
| "lzip (x # xs) (y # ys) = (x @ y) # lzip xs ys"

fun levels_of :: "ntree \<Rightarrow> nat list list" where
  "levels_of (NT n cs) = [n] # foldr lzip (map levels_of cs) []"

lemma lzip_Nil2 [simp]: "lzip xs [] = xs"
  by (cases xs) auto

lemma lzip_assoc: "lzip (lzip xs ys) zs = lzip xs (lzip ys zs)"
proof (induction xs ys arbitrary: zs rule: lzip.induct)
  case (3 x xs y ys)
  then show ?case by (cases zs) auto
qed auto

lemma length_lzip [simp]: "length (lzip xs ys) = max (length xs) (length ys)"
  by (induction xs ys rule: lzip.induct) auto

lemma lzip_replicate: "lzip (replicate k [] @ xs) (replicate k [] @ ys) = replicate k [] @ lzip xs ys"
  by (induction k) auto

lemma lzip_empties: "k \<le> length xs \<Longrightarrow> lzip xs (replicate k []) = xs"
proof (induction xs arbitrary: k)
  case Nil
  then show ?case by simp
next
  case (Cons x xs)
  then show ?case by (cases k) auto
qed

lemma map_lzip: "map (map f) (lzip xs ys) = lzip (map (map f) xs) (map (map f) ys)"
  by (induction xs ys rule: lzip.induct) auto

lemma concat_lzip_set: "set (concat (lzip xs ys)) = set (concat xs) \<union> set (concat ys)"
  by (induction xs ys rule: lzip.induct) auto

definition flevels :: "ntree list \<Rightarrow> nat list list" where
  "flevels F = foldr lzip (map levels_of F) []"

lemma flevels_simps [simp]:
  "flevels [] = []" "flevels (t # F) = lzip (levels_of t) (flevels F)"
  by (simp_all add: flevels_def)

lemma levels_of_NT: "levels_of (NT n cs) = [n] # flevels cs"
  by (simp add: flevels_def)

lemma flevels_append: "flevels (A @ B) = lzip (flevels A) (flevels B)"
  by (induction A) (auto simp: lzip_assoc)

lemma length_levels_le: "t \<in> set F \<Longrightarrow> length (levels_of t) \<le> length (flevels F)"
  by (induction F) auto

lemma map_of_enumerate:
  "map_of (enumerate n ls) k = (if n \<le> k \<and> k < n + length ls then Some (ls ! (k - n)) else None)"
proof (induction ls arbitrary: n)
  case Nil
  then show ?case by simp
next
  case (Cons x xs)
  show ?case
  proof (cases "k = n")
    case True
    then show ?thesis by simp
  next
    case False
    then show ?thesis using Cons [of "Suc n"] by (auto simp: nth_Cons')
  qed
qed

definition bump :: "nat \<Rightarrow> string \<Rightarrow> nat \<times> string list \<Rightarrow> nat \<times> string list" where
  "bump L i = (\<lambda>(l, ids). if l = L then (l, ids @ [i]) else (l, ids))"

lemma bump_above: "\<forall>x\<in>set (enumerate n ls). fst x \<noteq> L \<Longrightarrow> map (bump L i) (enumerate n ls) = enumerate n ls"
  by (induction ls arbitrary: n) (auto simp: bump_def)

lemma enumerate_keys_ge: "x \<in> set (enumerate n ls) \<Longrightarrow> n \<le> fst x"
  by (auto simp: in_set_enumerate_eq)

lemma push_level:
  "L \<le> length ls \<Longrightarrow>
   map (bump (n + L) i) (enumerate n (if L < length ls then ls else ls @ [[]]))
     = enumerate n (lzip ls (replicate L [] @ [[i]]))"
proof (induction ls arbitrary: n L)
  case Nil
  then show ?case by (simp add: bump_def)
next
  case (Cons x xs)
  show ?case
  proof (cases L)
    case 0
    have "map (bump n i) (enumerate (Suc n) xs) = enumerate (Suc n) xs"
      by (rule bump_above) (auto dest: enumerate_keys_ge)
    with 0 show ?thesis by (simp add: bump_def)
  next
    case (Suc L')
    with Cons.prems have l: "L' \<le> length xs" by simp
    from Cons.IH [OF l, of "Suc n"] Suc show ?thesis
      by (auto simp: bump_def split: if_splits)
  qed
qed

subsection \<open>The traversal of \<open>findLevel\<close> on a tree\<close>

fun succs_ok :: "RFEdge list \<Rightarrow> ntree \<Rightarrow> bool" where
  "succs_ok G (NT q cs) =
     (map target (filter (\<lambda>e. source e = node_id q) G) = map (\<lambda>c. node_id (root c)) cs \<and>
      list_all (succs_ok G) cs)"

lemma fold_edges_filter:
  "fold (\<lambda>e r. case r of None \<Rightarrow> None
                | Some s \<Rightarrow> if source e = i then g (target e) s else Some s) G r
   = fold (\<lambda>t r. Option.bind r (g t))
       (map target (filter (\<lambda>e. source e = i) G)) r"
  by (induction G arbitrary: r) (auto split: option.splits Option.bind_splits)

lemma levels_state_all:
  "st\<lparr>visited := a, levels := b\<rparr> = \<lparr>levels = b, visited = a\<rparr>"
  by (rule levels_state.equality) simp_all

lemma findLevel_step:
  assumes "i \<notin> visited st" "levels st = enumerate 0 ls" "L \<le> length ls"
  shows "findLevel (Suc f) G i L st =
     fold (\<lambda>t r. Option.bind r (findLevel f G t (Suc L)))
       (map target (filter (\<lambda>e. source e = i) G))
       (Some \<lparr>levels = enumerate 0 (lzip ls (replicate L [] @ [[i]])),
              visited = insert i (visited st)\<rparr>)"
proof -
  note ff = fold_edges_filter [of i "\<lambda>t s. findLevel f G t (L + 1) s" G]
  have e: "enumerate 0 ls @ [(L, [])] = enumerate 0 (ls @ [[]])" if "\<not> L < length ls"
    using that assms(3) by (simp add: enumerate_append_eq)
  have p: "map (\<lambda>(l, ids). if l = L then (l, ids @ [i]) else (l, ids))
             (enumerate 0 (if L < length ls then ls else ls @ [[]]))
           = enumerate 0 (lzip ls (replicate L [] @ [[i]]))"
    using push_level [OF assms(3), of 0 i] by (simp add: bump_def)
  show ?thesis
  proof (cases "L < length ls")
    case True
    with p have "map (\<lambda>(l, ids). if l = L then (l, ids @ [i]) else (l, ids)) (enumerate 0 ls)
           = enumerate 0 (lzip ls (replicate L [] @ [[i]]))" by simp
    with True show ?thesis
      using assms(1,2) by (simp add: Let_def ff map_of_enumerate levels_state_all del: lzip.simps)
  next
    case False
    with p have "map (\<lambda>(l, ids). if l = L then (l, ids @ [i]) else (l, ids)) (enumerate 0 (ls @ [[]]))
           = enumerate 0 (lzip ls (replicate L [] @ [[i]]))" by simp
    with False show ?thesis
      using assms(1,2) e [OF False]
      by (simp add: Let_def ff map_of_enumerate levels_state_all del: lzip.simps map_append)
  qed
qed

definition ids_of :: "ntree list \<Rightarrow> string set" where
  "ids_of F = node_id ` set (concat (map labels F))"

lemma ids_of_simps [simp]:
  "ids_of [] = {}" "ids_of (t # F) = node_id ` set (labels t) \<union> ids_of F"
  by (auto simp: ids_of_def)

lemma replicate_shift: "replicate (Suc L) [] @ X = replicate L [] @ ([] # X)"
  by (simp add: replicate_app_Cons_same)

lemma lzip_shift:
  "lzip (lzip ls (replicate L [] @ A)) (replicate L [] @ B) = lzip ls (replicate L [] @ lzip A B)"
  by (simp only: lzip_assoc lzip_replicate)

lemma findLevel_forest:
  assumes IH: "\<And>c f L st ls. c \<in> set cs \<Longrightarrow> succs_ok G c \<Longrightarrow> distinct (labels c) \<Longrightarrow>
      node_id ` set (labels c) \<inter> visited st = {} \<Longrightarrow> levels st = enumerate 0 ls \<Longrightarrow>
      L \<le> length ls \<Longrightarrow> length (levels_of c) \<le> f \<Longrightarrow>
      findLevel f G (node_id (root c)) L st =
        Some \<lparr>levels = enumerate 0 (lzip ls (replicate L [] @ map (map node_id) (levels_of c))),
              visited = visited st \<union> node_id ` set (labels c)\<rparr>"
    and ok: "list_all (succs_ok G) cs"
    and dist: "distinct (concat (map labels cs))"
    and fresh: "ids_of cs \<inter> visited st = {}"
    and lv: "levels st = enumerate 0 ls"
    and L: "L \<le> length ls"
    and fuel: "length (flevels cs) \<le> f"
  shows "fold (\<lambda>t r. Option.bind r (findLevel f G t L)) (map (\<lambda>c. node_id (root c)) cs) (Some st)
     = Some \<lparr>levels = enumerate 0 (lzip ls (replicate L [] @ map (map node_id) (flevels cs))),
             visited = visited st \<union> ids_of cs\<rparr>"
  using assms
proof (induction cs arbitrary: st ls)
  case Nil
  have "st = \<lparr>levels = enumerate 0 ls, visited = visited st\<rparr>"
    by (rule levels_state.equality) (simp_all add: Nil.prems)
  then show ?case using Nil.prems(6) by (simp add: lzip_empties)
next
  case (Cons c cs)
  let ?M = "map (map node_id)"
  let ?ls1 = "lzip ls (replicate L [] @ ?M (levels_of c))"
  let ?st1 = "\<lparr>levels = enumerate 0 ?ls1, visited = visited st \<union> node_id ` set (labels c)\<rparr>"
  have step: "findLevel f G (node_id (root c)) L st = Some ?st1"
  proof (rule Cons.prems(1))
    show "c \<in> set (c # cs)" by simp
    show "succs_ok G c" using Cons.prems(2) by simp
    show "distinct (labels c)" using Cons.prems(3) by simp
    show "node_id ` set (labels c) \<inter> visited st = {}" using Cons.prems(4) by auto
    show "levels st = enumerate 0 ls" by (rule Cons.prems(5))
    show "L \<le> length ls" by (rule Cons.prems(6))
    show "length (levels_of c) \<le> f" using Cons.prems(7) by simp
  qed
  have apart: "ids_of cs \<inter> node_id ` set (labels c) = {}"
    using Cons.prems(3) by (auto simp: ids_of_def)
  have rest: "fold (\<lambda>t r. Option.bind r (findLevel f G t L)) (map (\<lambda>c. node_id (root c)) cs) (Some ?st1)
     = Some \<lparr>levels = enumerate 0 (lzip ?ls1 (replicate L [] @ ?M (flevels cs))),
             visited = visited ?st1 \<union> ids_of cs\<rparr>"
  proof (rule Cons.IH)
    fix c' f' L' ls' and st' :: levels_state
    assume "c' \<in> set cs" "succs_ok G c'" "distinct (labels c')"
      "node_id ` set (labels c') \<inter> visited st' = {}" "levels st' = enumerate 0 ls'"
      "L' \<le> length ls'" "length (levels_of c') \<le> f'"
    then show "findLevel f' G (node_id (root c')) L' st' =
        Some \<lparr>levels = enumerate 0 (lzip ls' (replicate L' [] @ ?M (levels_of c'))),
              visited = visited st' \<union> node_id ` set (labels c')\<rparr>"
      by (intro Cons.prems(1)) simp_all
  next
    show "list_all (succs_ok G) cs" using Cons.prems(2) by simp
    show "distinct (concat (map labels cs))" using Cons.prems(3) by simp
    show "ids_of cs \<inter> visited ?st1 = {}" using Cons.prems(4) apart by auto
    show "levels ?st1 = enumerate 0 ?ls1" by simp
    show "L \<le> length ?ls1" using Cons.prems(6) by simp
    show "length (flevels cs) \<le> f" using Cons.prems(7) by simp
  qed
  have lz: "lzip ?ls1 (replicate L [] @ ?M (flevels cs))
      = lzip ls (replicate L [] @ ?M (flevels (c # cs)))"
    by (simp only: lzip_shift flevels_simps map_lzip)
  have vs: "visited ?st1 \<union> ids_of cs = visited st \<union> ids_of (c # cs)" by auto
  show ?case
    by (simp only: list.map fold_Cons comp_apply Option.bind.simps step rest lz vs)
qed

lemma findLevel_tree:
  "succs_ok G t \<Longrightarrow> distinct (labels t) \<Longrightarrow> node_id ` set (labels t) \<inter> visited st = {} \<Longrightarrow>
   levels st = enumerate 0 ls \<Longrightarrow> L \<le> length ls \<Longrightarrow> length (levels_of t) \<le> f \<Longrightarrow>
   findLevel f G (node_id (root t)) L st =
     Some \<lparr>levels = enumerate 0 (lzip ls (replicate L [] @ map (map node_id) (levels_of t))),
           visited = visited st \<union> node_id ` set (labels t)\<rparr>"
proof (induction t arbitrary: f L st ls)
  case (NT n cs)
  let ?M = "map (map node_id)"
  let ?i = "node_id n"
  from NT.prems(6) obtain f' where f: "f = Suc f'" "length (flevels cs) \<le> f'"
    by (cases f) (auto simp: flevels_def)
  let ?ls3 = "lzip ls (replicate L [] @ [[?i]])"
  let ?st3 = "\<lparr>levels = enumerate 0 ?ls3, visited = insert ?i (visited st)\<rparr>"
  have nv: "?i \<notin> visited st" using NT.prems(3) by auto
  have succ: "map target (filter (\<lambda>e. source e = ?i) G) = map (\<lambda>c. node_id (root c)) cs"
    using NT.prems(1) by simp
  have notin: "?i \<notin> ids_of cs" using NT.prems(2) by (auto simp: ids_of_def)
  have forest: "fold (\<lambda>t r. Option.bind r (findLevel f' G t (Suc L))) (map (\<lambda>c. node_id (root c)) cs) (Some ?st3)
     = Some \<lparr>levels = enumerate 0 (lzip ?ls3 (replicate (Suc L) [] @ ?M (flevels cs))),
             visited = visited ?st3 \<union> ids_of cs\<rparr>"
  proof (rule findLevel_forest)
    fix c f L ls and st :: levels_state
    assume "c \<in> set cs" "succs_ok G c" "distinct (labels c)"
      "node_id ` set (labels c) \<inter> visited st = {}" "levels st = enumerate 0 ls"
      "L \<le> length ls" "length (levels_of c) \<le> f"
    then show "findLevel f G (node_id (root c)) L st =
        Some \<lparr>levels = enumerate 0 (lzip ls (replicate L [] @ ?M (levels_of c))),
              visited = visited st \<union> node_id ` set (labels c)\<rparr>"
      by (rule NT.IH)
  next
    show "list_all (succs_ok G) cs" using NT.prems(1) by simp
    show "distinct (concat (map labels cs))" using NT.prems(2) by simp
    show "ids_of cs \<inter> visited ?st3 = {}" using NT.prems(3) notin by (auto simp: ids_of_def)
    show "levels ?st3 = enumerate 0 ?ls3" by simp
    show "Suc L \<le> length ?ls3" by simp
    show "length (flevels cs) \<le> f'" by (rule f(2))
  qed
  have lz: "lzip ?ls3 (replicate (Suc L) [] @ ?M (flevels cs))
      = lzip ls (replicate L [] @ ?M (levels_of (NT n cs)))"
    by (simp only: replicate_shift lzip_shift levels_of_NT) simp
  have vs: "visited ?st3 \<union> ids_of cs = visited st \<union> node_id ` set (labels (NT n cs))"
    by (auto simp: ids_of_def)
  show ?case
    unfolding f(1) root.simps
    by (simp only: findLevel_step [OF nv NT.prems(4,5)] succ forest lz vs)
qed

lemma labels_ntree_of: "labels (ntree_of v n) = [n..<n + jsize v]"
proof (induction v n rule: ntree_of.induct)
  case (1 v n)
  have "concat (map (\<lambda>km. labels ((\<lambda>(c, m). ntree_of c m) km)) (numbered jsize (children v) (Suc n)))
        = map (\<lambda>x. x) [Suc n..<Suc n + sum_list (map jsize (children v))]"
    by (rule upt_numbered) (auto simp: 1)
  moreover have "[n..<n + jsize v] = n # [Suc n..<Suc n + sum_list (map jsize (children v))]"
    by (simp add: jsize_children [of v] upt_conv_Cons del: upt_Suc)
  ultimately show ?case
    by (subst ntree_of.simps) (simp add: comp_def del: upt_Suc)
qed

lemma sources_in_labels: "(p, c) \<in> set (edges_of t) \<Longrightarrow> p \<in> set (labels t)"
  by (induction t arbitrary: p c) fastforce

lemma no_source_no_edge: "q \<notin> set (labels t) \<Longrightarrow> filter (\<lambda>pc. fst pc = q) (edges_of t) = []"
  by (auto simp: filter_empty_conv dest: sources_in_labels)

lemma filter_concat_map: "filter P (concat (map f xs)) = concat (map (\<lambda>x. filter P (f x)) xs)"
  by (induction xs) auto

lemma src_filter_root:
  assumes "distinct (labels (NT n cs))"
  shows "filter (\<lambda>pc. fst pc = n) (edges_of (NT n cs)) = map (\<lambda>c. (n, root c)) cs"
proof -
  have "filter (\<lambda>pc. fst pc = n) (edges_of c) = []" if "c \<in> set cs" for c
    using assms that by (intro no_source_no_edge) auto
  then have "map (\<lambda>c. filter (\<lambda>pc. fst pc = n) ((n, root c) # edges_of c)) cs = map (\<lambda>c. [(n, root c)]) cs"
    by (intro map_cong) simp_all
  then have "filter (\<lambda>pc. fst pc = n) (edges_of (NT n cs)) = concat (map (\<lambda>c. [(n, root c)]) cs)"
    by (simp only: edges_of.simps filter_concat_map)
  then show ?thesis by (simp add: concat_map_singleton)
qed

lemma only_one_contributes:
  "distinct (concat (map labels cs)) \<Longrightarrow> c \<in> set cs \<Longrightarrow> q \<in> set (labels c) \<Longrightarrow>
   concat (map (\<lambda>c. filter (\<lambda>pc. fst pc = q) (edges_of c)) cs) = filter (\<lambda>pc. fst pc = q) (edges_of c)"
proof (induction cs)
  case Nil
  then show ?case by simp
next
  case (Cons a as)
  show ?case
  proof (cases "q \<in> set (labels a)")
    case True
    have ca: "c = a"
    proof (rule ccontr)
      assume "c \<noteq> a"
      with Cons.prems(2) have "c \<in> set as" by simp
      with Cons.prems(3) have "q \<in> set (concat (map labels as))" by auto
      with True Cons.prems(1) show False by auto
    qed
    have "filter (\<lambda>pc. fst pc = q) (edges_of c') = []" if "c' \<in> set as" for c'
    proof (rule no_source_no_edge)
      show "q \<notin> set (labels c')" using True Cons.prems(1) that by auto
    qed
    then have "concat (map (\<lambda>c. filter (\<lambda>pc. fst pc = q) (edges_of c)) as) = []"
      by simp
    with ca show ?thesis by simp
  next
    case False
    then have "c \<noteq> a" using Cons.prems(3) by auto
    with Cons.prems have "c \<in> set as" "distinct (concat (map labels as))" by simp_all
    from Cons.IH [OF this(2,1) Cons.prems(3)] no_source_no_edge [OF False] show ?thesis by simp
  qed
qed

lemma src_filter_child:
  assumes "distinct (labels (NT n cs))" "c \<in> set cs" "q \<in> set (labels c)"
  shows "filter (\<lambda>pc. fst pc = q) (edges_of (NT n cs)) = filter (\<lambda>pc. fst pc = q) (edges_of c)"
proof -
  have qn: "q \<noteq> n" using assms by auto
  have "filter (\<lambda>pc. fst pc = q) (edges_of (NT n cs))
      = concat (map (\<lambda>c. filter (\<lambda>pc. fst pc = q) ((n, root c) # edges_of c)) cs)"
    by (simp only: edges_of.simps filter_concat_map)
  also have "\<dots> = concat (map (\<lambda>c. filter (\<lambda>pc. fst pc = q) (edges_of c)) cs)"
    using qn by simp
  also have "\<dots> = filter (\<lambda>pc. fst pc = q) (edges_of c)"
    using assms by (intro only_one_contributes) simp_all
  finally show ?thesis .
qed

definition edge_of_pair :: "nat \<times> nat \<Rightarrow> RFEdge" where
  "edge_of_pair pc = mk_edge (node_id (fst pc)) (node_id (snd pc))"

lemma tedges_pairs: "tedges t = map edge_of_pair (edges_of t)"
  by (simp add: tedges_def edge_of_pair_def split_def)

lemma filter_source_pairs:
  "filter (\<lambda>e. source e = node_id q) (map edge_of_pair E) = map edge_of_pair (filter (\<lambda>pc. fst pc = q) E)"
  by (simp add: filter_map comp_def edge_of_pair_def mk_edge_def)

lemma succs_ok_global:
  "distinct (labels t) \<Longrightarrow>
   (\<And>q. q \<in> set (labels t) \<Longrightarrow> filter (\<lambda>pc. fst pc = q) E = filter (\<lambda>pc. fst pc = q) (edges_of t)) \<Longrightarrow>
   succs_ok (map edge_of_pair E) t"
proof (induction t)
  case (NT n cs)
  have "filter (\<lambda>pc. fst pc = n) E = map (\<lambda>c. (n, root c)) cs"
    using NT.prems(2) [of n] src_filter_root [OF NT.prems(1)] by simp
  then have a: "map target (filter (\<lambda>e. source e = node_id n) (map edge_of_pair E))
      = map (\<lambda>c. node_id (root c)) cs"
    by (simp add: filter_source_pairs comp_def edge_of_pair_def mk_edge_def)
  have b: "succs_ok (map edge_of_pair E) c" if c: "c \<in> set cs" for c
  proof (rule NT.IH [OF c])
    show "distinct (labels c)" using NT.prems(1) c by (auto simp: distinct_concat_iff)
  next
    fix q assume q: "q \<in> set (labels c)"
    then have "q \<in> set (labels (NT n cs))" using c by auto
    from NT.prems(2) [OF this] src_filter_child [OF NT.prems(1) c q]
    show "filter (\<lambda>pc. fst pc = q) E = filter (\<lambda>pc. fst pc = q) (edges_of c)" by simp
  qed
  show ?case using a b by (simp add: list_all_iff)
qed

lemma succs_ok_tedges: "distinct (labels t) \<Longrightarrow> succs_ok (tedges t) t"
  unfolding tedges_pairs by (rule succs_ok_global) simp_all

lemma length_levels_of_le: "length (levels_of t) \<le> length (labels t)"
proof (induction t)
  case (NT n cs)
  have "length (flevels cs) \<le> length (concat (map labels cs))"
    using NT
  proof (induction cs)
    case Nil
    then show ?case by simp
  next
    case (Cons a as)
    have "length (levels_of a) \<le> length (labels a)" using Cons.prems by simp
    moreover have "length (flevels as) \<le> length (concat (map labels as))"
      using Cons.IH Cons.prems by simp
    ultimately show ?case by simp
  qed
  then show ?case by (simp add: flevels_def)
qed

lemma findLevel_createTree:
  assumes "jsize v \<le> fuel"
  shows "findLevel fuel (tedges (ntree_of v 0)) (node_id 0) 0 \<lparr>levels = [], visited = {}\<rparr>
     = Some \<lparr>levels = enumerate 0 (map (map node_id) (levels_of (ntree_of v 0))),
             visited = node_id ` {0..<jsize v}\<rparr>"
proof -
  let ?t = "ntree_of v 0"
  have d: "distinct (labels ?t)" by (simp add: labels_ntree_of)
  have len: "length (levels_of ?t) \<le> fuel"
    using length_levels_of_le [of ?t] assms by (simp add: labels_ntree_of)
  have "findLevel fuel (tedges ?t) (node_id (root ?t)) 0 \<lparr>levels = [], visited = {}\<rparr>
     = Some \<lparr>levels = enumerate 0 (lzip [] (replicate 0 [] @ map (map node_id) (levels_of ?t))),
             visited = visited \<lparr>levels = [], visited = {}\<rparr> \<union> node_id ` set (labels ?t)\<rparr>"
    by (rule findLevel_tree [OF succs_ok_tedges [OF d] d _ _ _ len]) simp_all
  then show ?thesis by (simp add: labels_ntree_of)
qed

subsection \<open>The layout as the specification words it\<close>

text \<open>
  A breadth-first traversal from the root along the outgoing edges: \<open>bfs_layers\<close> lists
  the ids level by level, a node that was already visited being skipped; the first
  argument bounds the number of levels, and a graph has at most one level more than it
  has edges. \<open>locate\<close> gives the level of an id, its index within the level and the
  size of the level. A located node is put at \<open>x = (index - size / 2) * 200\<close> and
  \<open>y = level * 150\<close>; a node that is not reached keeps its position, and so does every
  node when no root is found. The coordinates are rationals: the values that arise are
  multiples of one hundred, which the floating-point arithmetic of the source computes
  exactly.
\<close>

definition successors :: "RFEdge list \<Rightarrow> string \<Rightarrow> string list" where
  "successors es i = map target (filter (\<lambda>e. source e = i) es)"

fun unseen :: "string set \<Rightarrow> string list \<Rightarrow> string list" where
  "unseen seen [] = []"
| "unseen seen (i # is) = (if i \<in> seen then unseen seen is else i # unseen (insert i seen) is)"

fun bfs_layers :: "nat \<Rightarrow> RFEdge list \<Rightarrow> string set \<Rightarrow> string list \<Rightarrow> string list list" where
  "bfs_layers 0 es seen frontier = []"
| "bfs_layers (Suc k) es seen frontier =
     (if frontier = [] then []
      else frontier #
           bfs_layers k es (seen \<union> set frontier)
             (unseen (seen \<union> set frontier) (concat (map (successors es) frontier))))"

fun locate :: "string list list \<Rightarrow> string \<Rightarrow> nat \<Rightarrow> (nat \<times> nat \<times> nat) option" where
  "locate [] i L = None"
| "locate (layer # layers) i L =
     (if i \<in> set layer then Some (L, length (takeWhile (\<lambda>j. j \<noteq> i) layer), length layer)
      else locate layers i (Suc L))"

definition layered_position :: "string list list \<Rightarrow> 'n RFNode \<Rightarrow> 'n RFNode" where
  "layered_position layers n =
     (case locate layers (nid n) 0 of
        None \<Rightarrow> n
      | Some (L, idx, sz) \<Rightarrow>
          n\<lparr>position := \<lparr>px = (of_nat idx - of_nat sz / 2) * 200, py = of_nat L * 150\<rparr>\<rparr>)"

definition spec_layout :: "'n RFNode list \<Rightarrow> RFEdge list \<Rightarrow> 'n RFNode list" where
  "spec_layout ns es =
     (case find (\<lambda>n. \<not> list_ex (\<lambda>e. target e = nid n) es) ns of
        None \<Rightarrow> ns
      | Some r \<Rightarrow> map (layered_position (bfs_layers (Suc (length es)) es {} [nid r])) ns)"

subsection \<open>Assigning the positions\<close>

definition place :: "nat \<Rightarrow> nat \<Rightarrow> nat \<Rightarrow> XY" where
  "place L sz idx = \<lparr>px = (of_nat idx - of_nat sz / 2) * 200, py = of_nat L * 150\<rparr>"

definition assigns :: "nat \<times> string list \<Rightarrow> (string \<times> XY) list" where
  "assigns lv = map (\<lambda>(i, idx). (i, place (fst lv) (length (snd lv)) idx))
                  (zip (snd lv) [0..<length (snd lv)])"

definition set_all :: "(string \<times> XY) list \<Rightarrow> 'n RFNode list \<Rightarrow> 'n RFNode list" where
  "set_all as ns = fold (\<lambda>(i, p). setPosition i p) as ns"

lemma layoutNodes_unfold:
  "layoutNodes fuel ns es =
     map_option (\<lambda>st. set_all (concat (map assigns (Object_entries (levels st)))) ns)
       (case find (\<lambda>n. \<not> list_ex (\<lambda>e. target e = nid n) es) ns of
          None \<Rightarrow> Some \<lparr>levels = [], visited = {}\<rparr>
        | Some r \<Rightarrow> findLevel fuel es (nid r) 0 \<lparr>levels = [], visited = {}\<rparr>)"
proof -
  have inner: "fold (\<lambda>(nodeId', index). setPosition nodeId'
                  \<lparr>px = (of_nat index - of_nat (length ids) / 2) * 200, py = of_nat L * 150\<rparr>)
                (zip ids [0..<length ids]) xs
              = set_all (assigns (L, ids)) xs" for L ids and xs :: "'a RFNode list"
    by (simp add: set_all_def assigns_def fold_map comp_def split_def place_def)
  have outer: "fold (\<lambda>(levelNum, nodeIds).
                  fold (\<lambda>(nodeId', index). setPosition nodeId'
                          \<lparr>px = (of_nat index - of_nat (length nodeIds) / 2) * 200,
                           py = of_nat levelNum * 150\<rparr>)
                    (zip nodeIds [0..<length nodeIds])) lv xs
              = set_all (concat (map assigns lv)) xs" for lv and xs :: "'a RFNode list"
  proof (induction lv arbitrary: xs)
    case Nil
    then show ?case by (simp add: set_all_def)
  next
    case (Cons a lv)
    obtain L ids where a: "a = (L, ids)" by (cases a) auto
    show ?case
      using Cons [of "set_all (assigns (L, ids)) xs"] inner [of ids L xs]
      by (simp add: a) (simp add: set_all_def)
  qed
  show ?thesis
    unfolding layoutNodes_def Let_def outer by (simp split: option.splits)
qed

lemma setPosition_map:
  "distinct (map nid ns) \<Longrightarrow>
   setPosition i p ns = map (\<lambda>n. if nid n = i then n\<lparr>position := p\<rparr> else n) ns"
proof (induction ns)
  case Nil
  then show ?case by simp
next
  case (Cons a ns)
  show ?case
  proof (cases "nid a = i")
    case True
    from Cons.prems have "nid a \<notin> nid ` set ns" by simp
    with True have "\<forall>n\<in>set ns. nid n \<noteq> i" by (metis imageI)
    then have "map (\<lambda>n. if nid n = i then n\<lparr>position := p\<rparr> else n) ns = ns"
      by (intro map_idI) simp
    with True show ?thesis by simp
  next
    case False
    with Cons show ?thesis by simp
  qed
qed

lemma set_all_map:
  "distinct (map fst as) \<Longrightarrow> distinct (map nid ns) \<Longrightarrow>
   set_all as ns = map (\<lambda>n. case map_of as (nid n) of None \<Rightarrow> n | Some p \<Rightarrow> n\<lparr>position := p\<rparr>) ns"
proof (induction as arbitrary: ns)
  case Nil
  then show ?case by (simp add: set_all_def)
next
  case (Cons a as)
  obtain i p where a: "a = (i, p)" by (cases a) auto
  let ?ns' = "map (\<lambda>n. if nid n = i then n\<lparr>position := p\<rparr> else n) ns"
  have ids: "map nid ?ns' = map nid ns" by (simp add: comp_def if_distrib cong: if_cong)
  have none: "map_of as i = None" using Cons.prems(1) a by (simp add: map_of_eq_None_iff)
  have "set_all (a # as) ns = set_all as (setPosition i p ns)"
    by (simp add: set_all_def a)
  also have "\<dots> = set_all as ?ns'" by (simp only: setPosition_map [OF Cons.prems(2)])
  also have "\<dots> = map (\<lambda>n. case map_of as (nid n) of None \<Rightarrow> n | Some p \<Rightarrow> n\<lparr>position := p\<rparr>) ?ns'"
    using Cons.prems(1) Cons.prems(2) by (intro Cons.IH) (simp_all only: ids, simp)
  also have "\<dots> = map (\<lambda>n. case map_of (a # as) (nid n) of None \<Rightarrow> n | Some p \<Rightarrow> n\<lparr>position := p\<rparr>) ns"
    by (simp add: a none comp_def)
  finally show ?case .
qed

lemma map_of_layer:
  "map_of (map (\<lambda>(i, idx). (i, g idx)) (zip ids [k..<k + length ids])) i
     = (if i \<in> set ids then Some (g (k + length (takeWhile (\<lambda>j. j \<noteq> i) ids))) else None)"
proof (induction ids arbitrary: k)
  case Nil
  then show ?case by simp
next
  case (Cons a ids)
  have "[k..<k + length (a # ids)] = k # [Suc k..<Suc k + length ids]"
    by (simp add: upt_conv_Cons del: upt_Suc)
  then show ?case using Cons [of "Suc k"] by (simp del: upt_Suc)
qed

lemma map_of_assigns:
  "map_of (assigns (L, ids)) i
     = (if i \<in> set ids then Some (place L (length ids) (length (takeWhile (\<lambda>j. j \<noteq> i) ids))) else None)"
  using map_of_layer [of "place L (length ids)" ids 0 i] by (simp add: assigns_def)

lemma map_of_all_assigns:
  "map_of (concat (map assigns (enumerate L0 layers))) i
     = map_option (\<lambda>(L, idx, sz). place L sz idx) (locate layers i L0)"
proof (induction layers arbitrary: L0)
  case Nil
  then show ?case by simp
next
  case (Cons l layers)
  show ?case
    using Cons [of "Suc L0"]
    by (simp add: map_of_append map_add_def map_of_assigns split: option.splits)
qed

lemma fst_assigns: "map fst (assigns (L, ids)) = ids"
  by (simp add: assigns_def comp_def split_def map_fst_zip_fun)

lemma fst_all_assigns: "map fst (concat (map assigns (enumerate L0 layers))) = concat layers"
  by (induction layers arbitrary: L0) (simp_all add: fst_assigns)

lemma entries_enumerate: "Object_entries (enumerate 0 ls) = enumerate 0 ls"
  unfolding Object_entries_def by (rule sort_key_id_if_sorted) simp

lemma place_levels:
  assumes "distinct (concat layers)" "distinct (map nid ns)"
  shows "set_all (concat (map assigns (Object_entries (enumerate 0 layers)))) ns
     = map (layered_position layers) ns"
proof -
  have "set_all (concat (map assigns (enumerate 0 layers))) ns
      = map (\<lambda>n. case map_of (concat (map assigns (enumerate 0 layers))) (nid n) of
                   None \<Rightarrow> n | Some p \<Rightarrow> n\<lparr>position := p\<rparr>) ns"
    by (rule set_all_map) (simp_all add: fst_all_assigns assms)
  also have "\<dots> = map (layered_position layers) ns"
    by (rule map_cong [OF refl])
       (simp add: map_of_all_assigns layered_position_def place_def split: option.splits)
  finally show ?thesis by (simp only: entries_enumerate)
qed

subsection \<open>Breadth-first levels of a tree\<close>

lemma unseen_fresh: "distinct xs \<Longrightarrow> set xs \<inter> seen = {} \<Longrightarrow> unseen seen xs = xs"
proof (induction xs arbitrary: seen)
  case Nil
  then show ?case by simp
next
  case (Cons x xs)
  have "unseen (insert x seen) xs = xs"
    using Cons.prems by (intro Cons.IH) auto
  with Cons.prems show ?case by simp
qed

lemma flevels_step: "F \<noteq> [] \<Longrightarrow> flevels F = map root F # flevels (concat (map subtrees F))"
proof (induction F)
  case Nil
  then show ?case by simp
next
  case (Cons t F)
  obtain n cs where t: "t = NT n cs" by (cases t) auto
  show ?case
  proof (cases "F = []")
    case True
    then show ?thesis by (simp add: t flevels_def)
  next
    case False
    from Cons.IH [OF False] show ?thesis
      by (simp add: t flevels_append) (simp add: flevels_def)
  qed
qed

lemma labels_step_set:
  "set (concat (map labels F)) = set (map root F) \<union> set (concat (map labels (concat (map subtrees F))))"
proof (induction F)
  case Nil
  then show ?case by simp
next
  case (Cons t F)
  obtain n cs where t: "t = NT n cs" by (cases t) auto
  from Cons show ?case by (simp add: t) blast
qed

lemma labels_step_length:
  "length (concat (map labels F)) = length F + length (concat (map labels (concat (map subtrees F))))"
proof (induction F)
  case Nil
  then show ?case by simp
next
  case (Cons t F)
  obtain n cs where t: "t = NT n cs" by (cases t) auto
  from Cons show ?case by (simp add: t)
qed

lemma labels_step_distinct:
  assumes "distinct (concat (map labels F))"
  shows "distinct (map root F @ concat (map labels (concat (map subtrees F))))"
proof (rule card_distinct)
  let ?ys = "map root F @ concat (map labels (concat (map subtrees F)))"
  have "set ?ys = set (concat (map labels F))" using labels_step_set [of F] by simp
  then have "card (set ?ys) = length (concat (map labels F))"
    using distinct_card [OF assms] by simp
  also have "\<dots> = length ?ys" using labels_step_length [of F] by simp
  finally show "card (set ?ys) = length ?ys" .
qed

lemma forest_successors:
  "list_all (succs_ok G) F \<Longrightarrow>
   concat (map (successors G) (map (\<lambda>t. node_id (root t)) F))
     = map (\<lambda>t. node_id (root t)) (concat (map subtrees F))"
proof (induction F)
  case Nil
  then show ?case by simp
next
  case (Cons t F)
  obtain n cs where t: "t = NT n cs" by (cases t) auto
  from Cons show ?case by (simp add: t successors_def)
qed

lemma forest_succs_ok:
  "list_all (succs_ok G) F \<Longrightarrow> list_all (succs_ok G) (concat (map subtrees F))"
proof (induction F)
  case Nil
  then show ?case by simp
next
  case (Cons t F)
  obtain n cs where t: "t = NT n cs" by (cases t) auto
  from Cons show ?case by (simp add: t)
qed

lemma bfs_forest:
  "list_all (succs_ok G) F \<Longrightarrow> distinct (concat (map labels F)) \<Longrightarrow> seen \<inter> ids_of F = {} \<Longrightarrow>
   length (flevels F) \<le> k \<Longrightarrow>
   bfs_layers k G seen (map (\<lambda>t. node_id (root t)) F) = map (map node_id) (flevels F)"
proof (induction k arbitrary: F seen)
  case 0
  then show ?case by simp
next
  case (Suc k)
  show ?case
  proof (cases "F = []")
    case True
    then show ?thesis by simp
  next
    case False
    let ?F' = "concat (map subtrees F)"
    let ?front = "map (\<lambda>t. node_id (root t)) F"
    let ?raw = "map (\<lambda>t. node_id (root t)) ?F'"
    note fl = flevels_step [OF False]
    note d = labels_step_distinct [OF Suc.prems(2)]
    have d': "distinct (concat (map labels ?F'))" using d by simp
    have dr: "distinct (map root ?F')" using labels_step_distinct [OF d'] by simp
    have raw_d: "distinct ?raw"
    proof -
      have "?raw = map node_id (map root ?F')" by simp
      also have "distinct \<dots>" using dr by (simp only: distinct_map) (auto simp: inj_on_def)
      finally show ?thesis .
    qed
    have sub: "ids_of ?F' \<subseteq> ids_of F"
      using labels_step_set [of F] by (auto simp: ids_of_def)
    have raw_sub: "set ?raw \<subseteq> ids_of ?F'"
      using labels_step_set [of ?F'] by (auto simp: ids_of_def)
    have roots_apart: "set (map root F) \<inter> set (concat (map labels ?F')) = {}"
      using d by (simp only: distinct_append)
    have front_apart: "set ?front \<inter> ids_of ?F' = {}"
    proof (rule equals0I)
      fix x assume "x \<in> set ?front \<inter> ids_of ?F'"
      then have xf: "x \<in> set ?front" and xi: "x \<in> node_id ` set (concat (map labels ?F'))"
        unfolding ids_of_def by blast+
      from xf obtain t where t: "t \<in> set F" "x = node_id (root t)" by auto
      from xi obtain m where m: "m \<in> set (concat (map labels ?F'))" "x = node_id m" by blast
      from t(2) m(2) have "root t = m" by simp
      with t(1) m(1) have "m \<in> set (map root F) \<inter> set (concat (map labels ?F'))" by auto
      with roots_apart show False by blast
    qed
    have raw_fresh: "set ?raw \<inter> (seen \<union> set ?front) = {}"
      using raw_sub sub Suc.prems(3) front_apart by blast
    have next_frontier:
      "unseen (seen \<union> set ?front) (concat (map (successors G) ?front)) = ?raw"
      by (simp only: forest_successors [OF Suc.prems(1)] unseen_fresh [OF raw_d raw_fresh])
    have rest: "bfs_layers k G (seen \<union> set ?front) ?raw = map (map node_id) (flevels ?F')"
    proof (rule Suc.IH)
      show "list_all (succs_ok G) ?F'" by (rule forest_succs_ok [OF Suc.prems(1)])
      show "distinct (concat (map labels ?F'))" by (rule d')
      show "(seen \<union> set ?front) \<inter> ids_of ?F' = {}"
        using sub Suc.prems(3) front_apart by blast
      show "length (flevels ?F') \<le> k" using Suc.prems(4) fl by simp
    qed
    have ne: "?front \<noteq> []" using False by simp
    have "bfs_layers (Suc k) G seen ?front
        = ?front # bfs_layers k G (seen \<union> set ?front)
            (unseen (seen \<union> set ?front) (concat (map (successors G) ?front)))"
      by (simp only: bfs_layers.simps ne if_False)
    also have "\<dots> = ?front # map (map node_id) (flevels ?F')"
      by (simp only: next_frontier rest)
    also have "\<dots> = map (map node_id) (flevels F)"
      by (simp add: fl)
    finally show ?thesis .
  qed
qed

lemma length_concat_lzip: "length (concat (lzip xs ys)) = length (concat xs) + length (concat ys)"
  by (induction xs ys rule: lzip.induct) auto

lemma concat_levels_set: "set (concat (levels_of t)) = set (labels t)"
proof (induction t)
  case (NT n cs)
  have "set (concat (flevels cs)) = set (concat (map labels cs))"
    using NT
  proof (induction cs)
    case Nil
    then show ?case by simp
  next
    case (Cons a as)
    have "set (concat (levels_of a)) = set (labels a)" using Cons.prems by simp
    moreover have "set (concat (flevels as)) = set (concat (map labels as))"
      using Cons.IH Cons.prems by simp
    ultimately show ?case by (simp add: concat_lzip_set del: set_concat)
  qed
  then show ?case by (simp add: flevels_def del: set_concat)
qed

lemma concat_levels_length: "length (concat (levels_of t)) = length (labels t)"
proof (induction t)
  case (NT n cs)
  have "length (concat (flevels cs)) = length (concat (map labels cs))"
    using NT
  proof (induction cs)
    case Nil
    then show ?case by simp
  next
    case (Cons a as)
    have "length (concat (levels_of a)) = length (labels a)" using Cons.prems by simp
    moreover have "length (concat (flevels as)) = length (concat (map labels as))"
      using Cons.IH Cons.prems by simp
    ultimately show ?case by (simp add: length_concat_lzip)
  qed
  then show ?case by (simp add: flevels_def)
qed

lemma concat_levels_distinct: "distinct (labels t) \<Longrightarrow> distinct (concat (levels_of t))"
proof (rule card_distinct)
  assume d: "distinct (labels t)"
  have "card (set (concat (levels_of t))) = length (labels t)"
    using distinct_card [OF d] by (simp only: concat_levels_set)
  then show "card (set (concat (levels_of t))) = length (concat (levels_of t))"
    by (simp add: concat_levels_length)
qed

lemma locate_None: "(locate layers i L = None) = (i \<notin> set (concat layers))"
  by (induction layers arbitrary: L) auto

lemma targets_tedges: "map target (tedges (ntree_of v 0)) = map node_id [1..<jsize v]"
proof -
  have "map target (tedges (ntree_of v 0)) = map node_id (map snd (edges_of (ntree_of v 0)))"
    by (simp add: tedges_def comp_def split_def mk_edge_def)
  then show ?thesis by (simp only: targets_edges_of) simp
qed

lemma root_no_incoming:
  "\<not> list_ex (\<lambda>e. target e = node_id 0) (tedges (ntree_of v 0))"
  by (simp only: list_ex_map targets_tedges) auto

lemma tnodes_Cons: "\<exists>rest. tnodes dark v lbl p n = mk_node dark v lbl p n # rest"
  by (subst tnodes.simps) simp

lemma tnodes_fresh:
  "x \<in> set (tnodes dark v lbl p n) \<Longrightarrow>
     position x = \<lparr>px = 0, py = 0\<rparr> \<and> \<not> isHighlighted (data x)"
proof (induction dark v lbl p n arbitrary: x rule: tnodes.induct)
  case (1 dark v lbl p n)
  from 1(2) have "x = mk_node dark v lbl p n \<or>
      (\<exists>c cl cp m. ((c, cl, cp), m) \<in> set (numbered (\<lambda>k. jsize (fst k)) (kids v p) (Suc n)) \<and>
                   x \<in> set (tnodes dark c cl cp m))"
    by (subst (asm) tnodes.simps) auto
  then show ?case
  proof
    assume "x = mk_node dark v lbl p n"
    then show ?thesis by (simp add: mk_node_def)
  next
    assume "\<exists>c cl cp m. ((c, cl, cp), m) \<in> set (numbered (\<lambda>k. jsize (fst k)) (kids v p) (Suc n)) \<and>
                   x \<in> set (tnodes dark c cl cp m)"
    then obtain c cl cp m where "((c, cl, cp), m) \<in> set (numbered (\<lambda>k. jsize (fst k)) (kids v p) (Suc n))"
      "x \<in> set (tnodes dark c cl cp m)" by blast
    then show ?thesis by (rule 1(1) [OF _ refl refl refl])
  qed
qed

lemma layout_of_tree:
  fixes dark :: bool and v :: "'n json"
  assumes "jsize v \<le> fuel"
  defines "ns \<equiv> tnodes dark v ''root'' ''$'' 0"
    and "es \<equiv> tedges (ntree_of v 0)"
    and "LS \<equiv> map (map node_id) (levels_of (ntree_of v 0))"
  shows "find (\<lambda>n. \<not> list_ex (\<lambda>e. target e = nid n) es) ns = Some (hd ns)"
    and "nid (hd ns) = node_id 0"
    and "bfs_layers (Suc (length es)) es {} [nid (hd ns)] = LS"
    and "layoutNodes fuel ns es = Some (map (layered_position LS) ns)"
    and "set (concat LS) = set (map nid ns)"
proof -
  let ?t = "ntree_of v 0"
  obtain rest where nr: "ns = mk_node dark v ''root'' ''$'' 0 # rest"
    unfolding ns_def using tnodes_Cons by blast
  show hd: "nid (hd ns) = node_id 0" by (simp add: nr mk_node_def)
  have no: "\<not> list_ex (\<lambda>e. target e = nid (mk_node dark v ''root'' ''$'' 0)) es"
    using root_no_incoming [of v] by (simp add: es_def mk_node_def)
  show fr: "find (\<lambda>n. \<not> list_ex (\<lambda>e. target e = nid n) es) ns = Some (hd ns)"
    using no by (simp add: nr)
  have d: "distinct (labels ?t)" by (simp add: labels_ntree_of)
  have dn: "distinct (map nid ns)" unfolding ns_def ids_tnodes by (rule distinct_node_ids)
  have dl: "distinct (concat LS)"
  proof -
    have "concat LS = map node_id (concat (levels_of ?t))" by (simp add: LS_def map_concat)
    moreover have "distinct (map node_id (concat (levels_of ?t)))"
      using concat_levels_distinct [OF d] by (simp only: distinct_map) (auto simp: inj_on_def)
    ultimately show ?thesis by simp
  qed
  have le: "length es = jsize v - 1"
  proof -
    have "length es = length (map target es)" by simp
    also have "\<dots> = jsize v - 1" unfolding es_def targets_tedges by simp
    finally show ?thesis .
  qed
  have pos: "0 < jsize v" by (simp add: jsize_children [of v])
  have hl: "length (levels_of ?t) \<le> jsize v"
    using length_levels_of_le [of ?t] by (simp add: labels_ntree_of)
  show bfs: "bfs_layers (Suc (length es)) es {} [nid (hd ns)] = LS"
  proof -
    have "bfs_layers (Suc (length es)) es {} (map (\<lambda>t. node_id (root t)) [?t])
        = map (map node_id) (flevels [?t])"
    proof (rule bfs_forest)
      show "list_all (succs_ok es) [?t]" using succs_ok_tedges [OF d] by (simp add: es_def)
      show "distinct (concat (map labels [?t]))" using d by simp
      show "{} \<inter> ids_of [?t] = {}" by simp
      show "length (flevels [?t]) \<le> Suc (length es)" using hl le pos by simp
    qed
    then show ?thesis by (simp add: hd LS_def)
  qed
  have fl: "findLevel fuel es (nid (hd ns)) 0 \<lparr>levels = [], visited = {}\<rparr>
     = Some \<lparr>levels = enumerate 0 LS, visited = node_id ` {0..<jsize v}\<rparr>"
    unfolding hd es_def LS_def by (rule findLevel_createTree [OF assms(1)])
  show "layoutNodes fuel ns es = Some (map (layered_position LS) ns)"
    by (simp add: layoutNodes_unfold fr fl place_levels [OF dl dn])
  show "set (concat LS) = set (map nid ns)"
  proof -
    have "set (concat LS) = node_id ` set (concat (levels_of ?t))"
      by (simp add: LS_def map_concat [symmetric] del: set_concat)
    also have "\<dots> = node_id ` set (labels ?t)" by (simp only: concat_levels_set)
    also have "\<dots> = set (map nid ns)" by (simp add: ns_def ids_tnodes labels_ntree_of)
    finally show ?thesis .
  qed
qed

lemma layoutNodes_total:
  assumes "length (fst (createTree_default dark v)) \<le> fuel"
  shows "layoutNodes fuel (fst (createTree_default dark v)) (snd (createTree_default dark v))
     = Some (spec_layout (fst (createTree_default dark v)) (snd (createTree_default dark v)))"
proof -
  from assms have fuel: "jsize v \<le> fuel"
    by (simp add: createTree_default_char length_tnodes)
  note t = layout_of_tree [OF fuel, where dark = dark]
  show ?thesis
    unfolding createTree_default_char fst_conv snd_conv
    by (simp only: spec_layout_def t(1) option.case t(3) t(4))
qed

lemma layered_position_data [simp]: "data (layered_position layers n) = data n"
  by (simp add: layered_position_def split: option.splits)

lemma spec_layout_data: "map data (spec_layout ns es) = map data ns"
  by (simp add: spec_layout_def comp_def split: option.splits)

lemma createTree_default_fresh:
  "list_all (\<lambda>d. \<not> isHighlighted d) (map data (fst (createTree_default dark v)))"
  by (auto simp: createTree_default_char list_all_iff dest: tnodes_fresh)

text \<open>
  With a bound of at least the number of values, the bounded traversal is the traversal.
\<close>

lemma fold_within:
  assumes "\<And>x s. x \<in> set xs \<Longrightarrow> f x s = Some (h x s)"
  shows "fold (\<lambda>x r. case r of None \<Rightarrow> None | Some s \<Rightarrow> f x s) xs (Some s) = Some (fold h xs s)"
  using assms by (induction xs arbitrary: s) simp_all

lemma jsize_member: "x \<in> set xs \<Longrightarrow> jsize x \<le> sum_list (map jsize xs)"
  by (induction xs) auto

lemma traverse_within_unfold:
  "traverse_within (Suc f) dark v parent lbl p st =
     fold (\<lambda>k r. case r of None \<Rightarrow> None
              | Some s \<Rightarrow> traverse_within f dark (fst k) (Some (node_id (nodeId st)))
                           (fst (snd k)) (snd (snd k)) s)
       (kids v p)
       (Some (st\<lparr>nodeId := Suc (nodeId st),
                 nodeList := nodeList st @ [mk_node dark v lbl p (nodeId st)],
                 edgeList := edgeList st @ parent_edge parent (nodeId st)\<rparr>))"
  by (cases v)
     (simp_all add: Let_def mk_node_def parent_edge_def mk_edge_def node_id_def fold_map comp_def
        split_def split: option.splits)

lemma traverse_within_enough:
  "jsize v \<le> fuel \<Longrightarrow>
   traverse_within fuel dark v parent lbl p st = Some (traverse dark v parent lbl p st)"
proof (induction "size v" arbitrary: v fuel parent lbl p st rule: less_induct)
  case less
  have "0 < jsize v" by (simp add: jsize_children [of v])
  with less.prems obtain f where fuel: "fuel = Suc f" by (cases fuel) auto
  have bound: "sum_list (map jsize (children v)) \<le> f"
    using less.prems fuel by (simp add: jsize_children [of v])
  have child: "traverse_within f dark (fst k) q (fst (snd k)) (snd (snd k)) s
      = Some (traverse dark (fst k) q (fst (snd k)) (snd (snd k)) s)"
    if "k \<in> set (kids v p)" for k q s
  proof (rule less.hyps)
    from that have c: "fst k \<in> set (children v)" by (simp add: children_kids [of v p])
    show "size (fst k) < size v" using c by (rule children_smaller)
    show "jsize (fst k) \<le> f" using jsize_member [OF c] bound by simp
  qed
  have "traverse_within (Suc f) dark v parent lbl p st =
     Some (fold (\<lambda>k. traverse dark (fst k) (Some (node_id (nodeId st))) (fst (snd k)) (snd (snd k)))
       (kids v p)
       (st\<lparr>nodeId := Suc (nodeId st),
           nodeList := nodeList st @ [mk_node dark v lbl p (nodeId st)],
           edgeList := edgeList st @ parent_edge parent (nodeId st)\<rparr>))"
    unfolding traverse_within_unfold by (rule fold_within) (rule child)
  also have "\<dots> = Some (traverse dark v parent lbl p st)"
    by (subst traverse_unfold) (simp add: split_def)
  finally show ?case unfolding fuel .
qed

lemma createTree_within_enough:
  "jsize obj \<le> fuel \<Longrightarrow>
   createTree_within fuel dark obj parentId key pth = Some (createTree dark obj parentId key pth)"
  by (simp add: createTree_within_def createTree_def traverse_within_enough Let_def)

lemma handleVisualize_success:
  assumes "JSON_parse (jsonInput st) = Inr parsed"
    and "length (fst (createTree_default (themeDark st) parsed)) \<le> fuel"
  shows "handleVisualize fuel JSON_parse st =
     st\<lparr>error := [], searchResult := [],
        nodes := spec_layout (fst (createTree_default (themeDark st) parsed))
                   (snd (createTree_default (themeDark st) parsed)),
        edges := snd (createTree_default (themeDark st) parsed)\<rparr>"
proof -
  from assms(2) have "jsize parsed \<le> fuel"
    by (simp add: createTree_default_char length_tnodes)
  then have "createTree_within fuel (themeDark st) parsed None ''root'' ''$''
      = Some (createTree_default (themeDark st) parsed)"
    by (simp add: createTree_within_enough createTree_default_def)
  with layoutNodes_total [OF assms(2)] assms(1) show ?thesis
    by (simp add: handleVisualize_def Let_def split_def)
qed

lemma handleVisualize_parse_failure:
  "JSON_parse (jsonInput st) = Inl message \<Longrightarrow>
   handleVisualize fuel JSON_parse st =
     st\<lparr>error := ''Invalid JSON: '' @ message, nodes := [], edges := []\<rparr>"
  by (simp add: handleVisualize_def)

lemma handleVisualize_overflow:
  "JSON_parse (jsonInput st) = Inr parsed \<Longrightarrow>
   createTree_within fuel (themeDark st) parsed None ''root'' ''$'' = None \<Longrightarrow>
   handleVisualize fuel JSON_parse st =
     st\<lparr>error := ''Invalid JSON: '' @ RangeError_message, searchResult := [],
        nodes := [], edges := []\<rparr>"
  by (simp add: handleVisualize_def)



text \<open>
  C7. The claim is that an input that does not parse gives the error \<open>Invalid JSON: \<close>
  followed by the message of the parser and leaves no node and no edge, and that an input
  that parses has its error emptied. The first part is \<open>handleVisualize_parse_failure\<close>.
  The second part holds where the stack suffices, by \<open>handleVisualize_success\<close>, and not
  otherwise: the \<^verbatim>\<open>catch\<close> also receives the \<^verbatim>\<open>RangeError\<close> of \<^verbatim>\<open>createTree\<close> and
  \<^verbatim>\<open>layoutNodes\<close>, so a valid input nested deeper than the stack admits is reported as
  invalid JSON. Here the stack admits three nested calls and the value needs four; with
  four the same input gives its four nodes and no error.
\<close>

theorem handleVisualize_valid_input_reported_invalid:
  "(let parse = (\<lambda>s. if s = ''[[[null]]]'' then Inr (JArr [JArr [JArr [JNull :: unit json]]])
                     else Inl ''Unexpected token'');
        st = \<lparr>jsonInput = ''[[[null]]]'', searchPath = [], nodes = [], edges = [],
               error = [], searchResult = [], themeDark = True\<rparr>
    in parse (jsonInput st) = Inr (JArr [JArr [JArr [JNull]]]) \<and>
       error (handleVisualize 3 parse st) = ''Invalid JSON: Maximum call stack size exceeded'' \<and>
       nodes (handleVisualize 3 parse st) = [] \<and>
       edges (handleVisualize 3 parse st) = [] \<and>
       error (handleVisualize 4 parse st) = [] \<and>
       length (nodes (handleVisualize 4 parse st)) = 4)"
  by code_simp



end
